theory Spec2Isabelle
  imports Complex_Main
begin

section \<open>Values and views\<close>

text \<open>
  The kernels of the minimum spanning tree never do arithmetic on a \<^verbatim>\<open>float\<close>: they
  compare weights and distances (\<^verbatim>\<open><\<close>, \<^verbatim>\<open><=\<close>, \<^verbatim>\<open>!=\<close>) and take minima. A
  \<^verbatim>\<open>float\<close> is therefore modelled by the value it denotes: a finite number, one of the
  two infinities, or a NaN. Both zeros denote the number 0, as they compare equal. The
  three comparisons below are those of IEEE 754: every comparison with a NaN is false,
  except \<^verbatim>\<open>!=\<close>, which is true.
\<close>

datatype float32 = NaN | NegInf | Finite rat | PosInf

fun float_less :: "float32 \<Rightarrow> float32 \<Rightarrow> bool" where
  "float_less NaN _ = False"
| "float_less _ NaN = False"
| "float_less (Finite x) (Finite y) = (x < y)"
| "float_less NegInf NegInf = False"
| "float_less NegInf _ = True"
| "float_less _ NegInf = False"
| "float_less PosInf _ = False"
| "float_less _ PosInf = True"

fun float_neq :: "float32 \<Rightarrow> float32 \<Rightarrow> bool" where
  "float_neq NaN _ = True"
| "float_neq _ NaN = True"
| "float_neq a b = (a \<noteq> b)"

definition float_le :: "float32 \<Rightarrow> float32 \<Rightarrow> bool" where
  "float_le a b = (float_less a b \<or> \<not> float_neq a b)"

definition is_finite :: "float32 \<Rightarrow> bool" where
  "is_finite w = (case w of Finite _ \<Rightarrow> True | _ \<Rightarrow> False)"

text \<open>\<^verbatim>\<open>KokkosExt::ArithmeticTraits::infinity<float>::value\<close>.\<close>

definition infinity :: float32 where
  "infinity = PosInf"

text \<open>
  A \<^verbatim>\<open>Kokkos::View\<close> of rank 1 is a list. Kokkos does not check indices; a read or a
  write outside the extent has no defined behaviour, and the model stops there with
  \<open>OutOfBounds\<close>; so it does, with \<open>IntegerOverflow\<close>, at an addition of two \<^verbatim>\<open>int\<close>
  whose sum is not an \<^verbatim>\<open>int\<close>. \<^verbatim>\<open>ARBORX_ASSERT\<close> throws when its condition is false.
\<close>

datatype error = OutOfBounds | AssertionFailed | AllocationFailed | StackOverflow | IntegerOverflow

definition view_at :: "'a list \<Rightarrow> int \<Rightarrow> error + 'a" where
  "view_at v i = (if 0 \<le> i \<and> i < int (length v) then Inr (v ! nat i) else Inl OutOfBounds)"

definition view_set :: "'a list \<Rightarrow> int \<Rightarrow> 'a \<Rightarrow> error + 'a list" where
  "view_set v i x =
     (if 0 \<le> i \<and> i < int (length v) then Inr (v[nat i := x]) else Inl OutOfBounds)"

section \<open>Weighted edges\<close>

record WeightedEdge =
  source :: int
  target :: int
  weight :: float32

text \<open>
  \<^verbatim>\<open>operator<\<close> of \<^verbatim>\<open>WeightedEdge\<close>: first the weights, then the unordered pair of
  vertices.
\<close>

definition operator_less :: "WeightedEdge \<Rightarrow> WeightedEdge \<Rightarrow> bool" where
  "operator_less lhs rhs =
     (if float_neq (weight lhs) (weight rhs) then float_less (weight lhs) (weight rhs)
      else
        let lhs_min = min (source lhs) (target lhs);
            rhs_min = min (source rhs) (target rhs)
        in if lhs_min \<noteq> rhs_min then lhs_min < rhs_min
           else
             let lhs_max = max (source lhs) (target lhs);
                 rhs_max = max (source rhs) (target rhs)
             in lhs_max < rhs_max)"

lemma float_less_Finite [simp]:
  "float_less (Finite x) b = (case b of Finite y \<Rightarrow> x < y | PosInf \<Rightarrow> True | _ \<Rightarrow> False)"
  by (cases b) simp_all

lemma float_neq_Finite [simp]:
  "float_neq (Finite x) b = (b \<noteq> Finite x)"
  by (cases b) auto

lemma float_less_irrefl: "\<not> float_less a a"
  by (cases a) simp_all

lemma float_less_trans: "float_less a b \<Longrightarrow> float_less b c \<Longrightarrow> float_less a c"
  by (cases a; cases b; cases c) simp_all

lemma float_less_neq: "float_less a b \<Longrightarrow> float_neq a b"
  by (cases a; cases b) simp_all

lemma float_not_neq_eq: "\<not> float_neq a b \<Longrightarrow> a = b"
  by (cases a; cases b) simp_all

lemma operator_less_irrefl: "\<not> operator_less e e"
  by (simp add: operator_less_def Let_def float_less_irrefl)

lemma operator_less_trans:
  assumes "operator_less e1 e2" and "operator_less e2 e3"
  shows "operator_less e1 e3"
proof (cases "float_neq (weight e1) (weight e2)")
  case True
  with assms have l12: "float_less (weight e1) (weight e2)"
    by (simp add: operator_less_def)
  show ?thesis
  proof (cases "float_neq (weight e2) (weight e3)")
    case True
    with assms have "float_less (weight e2) (weight e3)"
      by (simp add: operator_less_def)
    with l12 have "float_less (weight e1) (weight e3)"
      by (rule float_less_trans)
    then show ?thesis
      by (simp add: operator_less_def float_less_neq)
  next
    case False
    then have "weight e2 = weight e3"
      by (rule float_not_neq_eq)
    with l12 show ?thesis
      by (simp add: operator_less_def float_less_neq)
  qed
next
  case False
  then have eq12: "weight e1 = weight e2"
    by (rule float_not_neq_eq)
  show ?thesis
  proof (cases "float_neq (weight e2) (weight e3)")
    case True
    with assms have "float_less (weight e2) (weight e3)"
      by (simp add: operator_less_def)
    with eq12 show ?thesis
      by (simp add: operator_less_def float_less_neq)
  next
    case n23: False
    with assms eq12 False show ?thesis
      by (auto simp: operator_less_def Let_def split: if_splits)
  qed
qed

lemma float_le_refl: "a \<noteq> NaN \<Longrightarrow> float_le a a"
  by (cases a) (simp_all add: float_le_def)

text \<open>
  C2. On edges of finite weight \<open>operator_less\<close> is the lexicographic order of the
  weight, the lesser vertex and the greater vertex; it is irreflexive and transitive, and
  of two edges of finite weight that differ in weight or in their unordered pair of
  vertices exactly one is less than the other.
\<close>

theorem operator_less_strict_total_order:
  "(weight e1 = Finite w1 \<and> weight e2 = Finite w2 \<longrightarrow>
      operator_less e1 e2 =
        (w1 < w2
         \<or> (w1 = w2 \<and> min (source e1) (target e1) < min (source e2) (target e2))
         \<or> (w1 = w2 \<and> min (source e1) (target e1) = min (source e2) (target e2)
             \<and> max (source e1) (target e1) < max (source e2) (target e2))))
   \<and> \<not> operator_less e1 e1
   \<and> (operator_less e1 e2 \<and> operator_less e2 e3 \<longrightarrow> operator_less e1 e3)
   \<and> (is_finite (weight e1) \<and> is_finite (weight e2)
        \<and> (weight e1 \<noteq> weight e2
             \<or> {source e1, target e1} \<noteq> {source e2, target e2})
      \<longrightarrow> operator_less e1 e2 \<noteq> operator_less e2 e1)"
proof (intro conjI impI)
  assume "weight e1 = Finite w1 \<and> weight e2 = Finite w2"
  then show "operator_less e1 e2 =
        (w1 < w2
         \<or> (w1 = w2 \<and> min (source e1) (target e1) < min (source e2) (target e2))
         \<or> (w1 = w2 \<and> min (source e1) (target e1) = min (source e2) (target e2)
             \<and> max (source e1) (target e1) < max (source e2) (target e2)))"
    by (auto simp: operator_less_def Let_def)
next
  show "\<not> operator_less e1 e1"
    by (rule operator_less_irrefl)
next
  assume "operator_less e1 e2 \<and> operator_less e2 e3"
  then show "operator_less e1 e3"
    using operator_less_trans by blast
next
  assume a: "is_finite (weight e1) \<and> is_finite (weight e2)
        \<and> (weight e1 \<noteq> weight e2
             \<or> {source e1, target e1} \<noteq> {source e2, target e2})"
  then obtain w1 w2 where w: "weight e1 = Finite w1" "weight e2 = Finite w2"
    by (auto simp: is_finite_def split: float32.splits)
  from a have d: "w1 \<noteq> w2 \<or> {source e1, target e1} \<noteq> {source e2, target e2}"
    using w by auto
  show "operator_less e1 e2 \<noteq> operator_less e2 e1"
  proof (cases "w1 = w2")
    case False
    with w show ?thesis
      by (auto simp: operator_less_def Let_def)
  next
    case True
    with d have "{source e1, target e1} \<noteq> {source e2, target e2}"
      by simp
    then have "min (source e1) (target e1) \<noteq> min (source e2) (target e2)
      \<or> max (source e1) (target e1) \<noteq> max (source e2) (target e2)"
      by (auto simp: min_def max_def doubleton_eq_iff split: if_splits)
    with w True show ?thesis
      by (auto simp: operator_less_def Let_def)
  qed
qed

theorem operator_less_strict_total_order_witness:
  "operator_less \<lparr>source = 3, target = 1, weight = Finite 2\<rparr>
                 \<lparr>source = 2, target = 4, weight = Finite 2\<rparr>
   \<and> \<not> operator_less \<lparr>source = 2, target = 4, weight = Finite 2\<rparr>
                      \<lparr>source = 3, target = 1, weight = Finite 2\<rparr>"
  using operator_less_strict_total_order
    [of "\<lparr>source = 3, target = 1, weight = Finite 2\<rparr>" 2
        "\<lparr>source = 2, target = 4, weight = Finite 2\<rparr>" 2
        "\<lparr>source = 2, target = 4, weight = Finite 2\<rparr>"]
  by (simp add: is_finite_def operator_less_def)

section \<open>Minimum and maximum reductions\<close>

















text \<open>
  \<^verbatim>\<open>Kokkos::parallel_for\<close> over a range runs the work item of every index of the range.
  The model runs the work items one after another, each to its end, in the order of a
  schedule; the theorems about a kernel hold for every schedule of its range. A work item
  that fails stops the kernel.
\<close>

fun parallel_for :: "int list \<Rightarrow> (int \<Rightarrow> 's \<Rightarrow> error + 's) \<Rightarrow> 's \<Rightarrow> error + 's" where
  "parallel_for [] body s = Inr s"
| "parallel_for (i # is) body s =
     (case body i s of Inl e \<Rightarrow> Inl e | Inr s' \<Rightarrow> parallel_for is body s')"

section \<open>DBSCAN: flattening the union-find array\<close>

text \<open>
  The loop of the kernel \<^verbatim>\<open>ArborX::DBSCAN::flatten_stat\<close>:
  \<^verbatim>\<open>while (vstat > (next = stat(vstat))) vstat = next;\<close>
\<close>

function flatten_walk :: "int list \<Rightarrow> int \<Rightarrow> error + int" where
  "flatten_walk stat vstat =
     (case view_at stat vstat of
        Inl e \<Rightarrow> Inl e
      | Inr next \<Rightarrow> if vstat > next then flatten_walk stat next else Inr vstat)"
  by pat_completeness auto
termination
  by (relation "measure (\<lambda>(stat, vstat). nat (vstat + 1))")
     (auto simp: view_at_def split: if_splits)

declare flatten_walk.simps [simp del]

text \<open>The work item of index \<open>i\<close>; it writes \<open>stat(i)\<close> only when the value changes.\<close>

definition flatten_stat_body :: "int \<Rightarrow> int list \<Rightarrow> error + int list" where
  "flatten_stat_body i stat =
     (case view_at stat i of
        Inl e \<Rightarrow> Inl e
      | Inr old \<Rightarrow>
          (case flatten_walk stat old of
             Inl e \<Rightarrow> Inl e
           | Inr vstat \<Rightarrow> if vstat \<noteq> old then view_set stat i vstat else Inr stat))"

definition flatten_stat :: "int list \<Rightarrow> int list \<Rightarrow> error + int list" where
  "flatten_stat schedule stat = parallel_for schedule flatten_stat_body stat"

text \<open>Every entry is the index of a parent that is no larger than its node.\<close>

definition parents_below :: "int list \<Rightarrow> bool" where
  "parents_below stat = (\<forall>v. 0 \<le> v \<and> v < int (length stat) \<longrightarrow> 0 \<le> stat ! nat v \<and> stat ! nat v \<le> v)"

lemma flatten_walk_root:
  "parents_below stat \<Longrightarrow> 0 \<le> v \<Longrightarrow> v < int (length stat) \<Longrightarrow>
   \<exists>r. flatten_walk stat v = Inr r \<and> 0 \<le> r \<and> r \<le> v \<and> stat ! nat r = r"
proof (induction stat v rule: flatten_walk.induct)
  case (1 stat vstat)
  have rd: "view_at stat vstat = Inr (stat ! nat vstat)"
    using 1 by (simp add: view_at_def)
  have b: "0 \<le> stat ! nat vstat" "stat ! nat vstat \<le> vstat"
    using 1(2,3,4) by (auto simp: parents_below_def)
  show ?case
  proof (cases "vstat > stat ! nat vstat")
    case True
    then obtain r where "flatten_walk stat (stat ! nat vstat) = Inr r" "0 \<le> r" "r \<le> stat ! nat vstat" "stat ! nat r = r"
      using 1(1) [OF rd True 1(2) b(1)] 1(4) by auto
    then show ?thesis
      using rd True by (subst flatten_walk.simps) auto
  next
    case False
    then have "stat ! nat vstat = vstat" using b by simp
    then show ?thesis
      using rd 1 by (subst flatten_walk.simps) auto
  qed
qed

text \<open>The walk returns a node of the chain of parents of its start.\<close>

lemma flatten_walk_chain:
  "parents_below stat \<Longrightarrow> 0 \<le> v \<Longrightarrow> v < int (length stat) \<Longrightarrow>
   \<exists>k. flatten_walk stat v = Inr (((\<lambda>u. stat ! nat u) ^^ k) v)"
proof (induction stat v rule: flatten_walk.induct)
  case (1 stat vstat)
  have rd: "view_at stat vstat = Inr (stat ! nat vstat)"
    using 1 by (simp add: view_at_def)
  have b: "0 \<le> stat ! nat vstat" "stat ! nat vstat \<le> vstat"
    using 1(2,3,4) by (auto simp: parents_below_def)
  show ?case
  proof (cases "vstat > stat ! nat vstat")
    case True
    then obtain k where
      k: "flatten_walk stat (stat ! nat vstat) = Inr (((\<lambda>u. stat ! nat u) ^^ k) (stat ! nat vstat))"
      using 1(1) [OF rd True 1(2) b(1)] 1(4) by auto
    have "flatten_walk stat vstat = flatten_walk stat (stat ! nat vstat)"
      using rd True by (subst flatten_walk.simps) simp
    also have "\<dots> = Inr (((\<lambda>u. stat ! nat u) ^^ Suc k) vstat)"
      using k funpow_swap1 [of "\<lambda>u. stat ! nat u" k vstat] by simp
    finally show ?thesis by blast
  next
    case False
    then have "flatten_walk stat vstat = Inr (((\<lambda>u. stat ! nat u) ^^ 0) vstat)"
      using rd by (subst flatten_walk.simps) simp
    then show ?thesis by blast
  qed
qed

lemma flatten_walk_step:
  "0 \<le> v \<Longrightarrow> v < int (length s) \<Longrightarrow>
   flatten_walk s v = (if v > s ! nat v then flatten_walk s (s ! nat v) else Inr v)"
  by (subst flatten_walk.simps) (simp add: view_at_def)

lemma flatten_walk_update:
  assumes pb: "parents_below stat" and i: "0 \<le> i" "i < int (length stat)"
    and r: "flatten_walk stat (stat ! nat i) = Inr r"
  shows "0 \<le> v \<Longrightarrow> v < int (length stat) \<Longrightarrow>
         flatten_walk (stat[nat i := r]) v = flatten_walk stat v"
proof (induction "nat v" arbitrary: v rule: less_induct)
  case less
  let ?p = "stat ! nat i"
  let ?s = "stat[nat i := r]"
  have p: "0 \<le> ?p" "?p \<le> i"
    using pb i by (auto simp: parents_below_def)
  obtain r' where r': "flatten_walk stat ?p = Inr r'" "0 \<le> r'" "r' \<le> ?p" "stat ! nat r' = r'"
    using flatten_walk_root [OF pb p(1)] p(2) i(2) by fastforce
  with r have rr: "0 \<le> r" "r \<le> ?p" "stat ! nat r = r"
    by simp_all
  have len: "length ?s = length stat"
    by simp
  show ?case
  proof (cases "v = i")
    case True
    show ?thesis
    proof (cases "?p = i")
      case True
      then have "flatten_walk stat i = Inr i"
        using flatten_walk_step [OF i, of ] by simp
      with r True have "r = i" by simp
      with True have "?s = stat" by (metis list_update_id)
      then show ?thesis by simp
    next
      case False
      with p have lt: "?p < i" by simp
      then have a: "flatten_walk stat i = Inr r"
        using flatten_walk_step [OF i] r by simp
      have ri: "r < i" using rr lt by simp
      have "?s ! nat i = r"
        using i by simp
      then have b: "flatten_walk ?s i = flatten_walk ?s r"
        using flatten_walk_step [of i ?s] i ri by simp
      have "nat r \<noteq> nat i" using ri rr(1) by simp
      then have "?s ! nat r = r"
        using rr by simp
      then have "flatten_walk ?s r = Inr r"
        using flatten_walk_step [of r ?s] rr ri i by simp
      with a b True show ?thesis by simp
    qed
  next
    case False
    let ?q = "stat ! nat v"
    have "nat v \<noteq> nat i" using False less(2) i by linarith
    then have q: "?s ! nat v = ?q" by simp
    have qb: "0 \<le> ?q" "?q \<le> v"
      using pb less by (auto simp: parents_below_def)
    show ?thesis
    proof (cases "v > ?q")
      case True
      have "flatten_walk ?s ?q = flatten_walk stat ?q"
        using less(1) [of ?q] True qb less(2,3) by simp
      then show ?thesis
        using flatten_walk_step [of v ?s] flatten_walk_step [of v stat] less(2,3) q True
        by simp
    next
      case False
      then show ?thesis
        using flatten_walk_step [of v ?s] flatten_walk_step [of v stat] less(2,3) q
        by simp
    qed
  qed
qed

lemma parents_below_update:
  assumes pb: "parents_below stat" and i: "0 \<le> i" "i < int (length stat)"
    and r: "0 \<le> r" "r \<le> i"
  shows "parents_below (stat[nat i := r])"
  unfolding parents_below_def
proof (intro allI impI)
  fix v assume v: "0 \<le> v \<and> v < int (length (stat[nat i := r]))"
  show "0 \<le> stat[nat i := r] ! nat v \<and> stat[nat i := r] ! nat v \<le> v"
  proof (cases "v = i")
    case True
    then show ?thesis using i r by simp
  next
    case False
    then have "nat v \<noteq> nat i" using v i by linarith
    then show ?thesis using pb v by (simp add: parents_below_def)
  qed
qed

text \<open>One work item: the entry of \<open>i\<close> becomes the fixed point its parents lead to.\<close>

lemma flatten_stat_body_result:
  assumes pb: "parents_below stat" and i: "0 \<le> i" "i < int (length stat)"
  shows "\<exists>r. flatten_walk stat i = Inr r \<and> flatten_stat_body i stat = Inr (stat[nat i := r])
             \<and> 0 \<le> r \<and> r \<le> i \<and> flatten_walk stat (stat ! nat i) = Inr r"
proof -
  let ?p = "stat ! nat i"
  have p: "0 \<le> ?p" "?p \<le> i"
    using pb i by (auto simp: parents_below_def)
  obtain r where r: "flatten_walk stat ?p = Inr r" "0 \<le> r" "r \<le> ?p" "stat ! nat r = r"
    using flatten_walk_root [OF pb p(1)] p(2) i(2) by fastforce
  have w: "flatten_walk stat i = Inr r"
  proof (cases "i > ?p")
    case True
    then show ?thesis using flatten_walk_step [OF i] r by simp
  next
    case False
    then have e: "?p = i" using p by simp
    then have "flatten_walk stat i = Inr i" using flatten_walk_step [OF i] by simp
    with r e show ?thesis by simp
  qed
  have "flatten_stat_body i stat = Inr (stat[nat i := r])"
  proof (cases "r = ?p")
    case True
    then have "stat[nat i := r] = stat" by (metis list_update_id)
    then show ?thesis
      using i r True by (simp add: flatten_stat_body_def view_at_def)
  next
    case False
    then show ?thesis
      using i r by (simp add: flatten_stat_body_def view_at_def view_set_def)
  qed
  with w r p show ?thesis by auto
qed

lemma parallel_for_flatten:
  assumes "parents_below stat" and "\<forall>i\<in>set sched. 0 \<le> i \<and> i < int (length stat)"
  shows "\<exists>stat'. parallel_for sched flatten_stat_body stat = Inr stat'
           \<and> length stat' = length stat \<and> parents_below stat'
           \<and> (\<forall>v. 0 \<le> v \<and> v < int (length stat) \<longrightarrow>
                  flatten_walk stat' v = flatten_walk stat v)
           \<and> (\<forall>v. 0 \<le> v \<and> v < int (length stat) \<and>
                  (v \<in> set sched \<or> flatten_walk stat v = Inr (stat ! nat v))
                  \<longrightarrow> flatten_walk stat v = Inr (stat' ! nat v))"
  using assms
proof (induction sched arbitrary: stat)
  case Nil
  then show ?case by simp
next
  case (Cons i sched)
  then have i: "0 \<le> i" "i < int (length stat)" by simp_all
  obtain r where r: "flatten_walk stat i = Inr r" "flatten_stat_body i stat = Inr (stat[nat i := r])"
      "0 \<le> r" "r \<le> i" "flatten_walk stat (stat ! nat i) = Inr r"
    using flatten_stat_body_result [OF Cons(2) i] by blast
  let ?s = "stat[nat i := r]"
  have pb: "parents_below ?s"
    using parents_below_update [OF Cons(2) i r(3,4)] .
  have same: "\<And>v. 0 \<le> v \<Longrightarrow> v < int (length stat) \<Longrightarrow> flatten_walk ?s v = flatten_walk stat v"
    using flatten_walk_update [OF Cons(2) i r(5)] .
  have sch: "\<forall>i\<in>set sched. 0 \<le> i \<and> i < int (length ?s)"
    using Cons(3) by simp
  obtain stat' where s': "parallel_for sched flatten_stat_body ?s = Inr stat'"
     "length stat' = length ?s" "parents_below stat'"
     "\<forall>v. 0 \<le> v \<and> v < int (length ?s) \<longrightarrow> flatten_walk stat' v = flatten_walk ?s v"
     "\<forall>v. 0 \<le> v \<and> v < int (length ?s) \<and>
                  (v \<in> set sched \<or> flatten_walk ?s v = Inr (?s ! nat v))
                  \<longrightarrow> flatten_walk ?s v = Inr (stat' ! nat v)"
    using Cons(1) [OF pb sch] by blast
  have "\<forall>v. 0 \<le> v \<and> v < int (length stat) \<and>
                  (v \<in> set (i # sched) \<or> flatten_walk stat v = Inr (stat ! nat v))
                  \<longrightarrow> flatten_walk stat v = Inr (stat' ! nat v)"
  proof (intro allI impI)
    fix v assume v: "0 \<le> v \<and> v < int (length stat) \<and>
                  (v \<in> set (i # sched) \<or> flatten_walk stat v = Inr (stat ! nat v))"
    have "v \<in> set sched \<or> flatten_walk ?s v = Inr (?s ! nat v)"
    proof (cases "v = i")
      case True
      then show ?thesis using same [of i] i r by simp
    next
      case False
      then have "nat v \<noteq> nat i" using v i by linarith
      then have "?s ! nat v = stat ! nat v" by simp
      then show ?thesis using v False same [of v] by auto
    qed
    then have "flatten_walk ?s v = Inr (stat' ! nat v)"
      using s'(5) v by simp
    then show "flatten_walk stat v = Inr (stat' ! nat v)"
      using same [of v] v by simp
  qed
  moreover have "\<forall>v. 0 \<le> v \<and> v < int (length stat) \<longrightarrow>
                  flatten_walk stat' v = flatten_walk stat v"
    using s'(4) same by simp
  ultimately show ?case
    using r(2) s'(1,2,3) by simp
qed

text \<open>
  C7. When every parent index is at most its node, the flattening pass succeeds under
  every schedule of the range \<^verbatim>\<open>[0, n)\<close>, and afterwards every entry points directly to
  the representative of its index: the new entry of \<open>i\<close> lies on the chain of parents of
  \<open>i\<close> in the array before the pass, it is its own parent in that array, which makes it
  the one root that the chain reaches, and it is a fixed point of the new array,
  \<open>stat(stat(i)) = stat(i)\<close>. The chain is the one the loop of the kernel follows.
\<close>

theorem flatten_stat_flat:
  assumes "parents_below stat" and "set schedule = {0..<int (length stat)}"
  shows "\<exists>stat'. flatten_stat schedule stat = Inr stat' \<and> length stat' = length stat
           \<and> (\<forall>i. 0 \<le> i \<and> i < int (length stat) \<longrightarrow>
                  0 \<le> stat' ! nat i \<and> stat' ! nat i < int (length stat)
                  \<and> stat' ! nat (stat' ! nat i) = stat' ! nat i
                  \<and> (\<exists>k. stat' ! nat i = ((\<lambda>u. stat ! nat u) ^^ k) i)
                  \<and> stat ! nat (stat' ! nat i) = stat' ! nat i
                  \<and> flatten_walk stat i = Inr (stat' ! nat i))"
proof -
  have pb: "parents_below stat"
    using assms(1) .
  have sch: "\<forall>i\<in>set schedule. 0 \<le> i \<and> i < int (length stat)"
    using assms(2) by simp
  obtain stat' where s': "parallel_for schedule flatten_stat_body stat = Inr stat'"
     "length stat' = length stat" "parents_below stat'"
     "\<forall>v. 0 \<le> v \<and> v < int (length stat) \<longrightarrow> flatten_walk stat' v = flatten_walk stat v"
     "\<forall>v. 0 \<le> v \<and> v < int (length stat) \<and>
                  (v \<in> set schedule \<or> flatten_walk stat v = Inr (stat ! nat v))
                  \<longrightarrow> flatten_walk stat v = Inr (stat' ! nat v)"
    using parallel_for_flatten [OF pb sch] by blast
  have "\<forall>i. 0 \<le> i \<and> i < int (length stat) \<longrightarrow>
                  0 \<le> stat' ! nat i \<and> stat' ! nat i < int (length stat)
                  \<and> stat' ! nat (stat' ! nat i) = stat' ! nat i
                  \<and> (\<exists>k. stat' ! nat i = ((\<lambda>u. stat ! nat u) ^^ k) i)
                  \<and> stat ! nat (stat' ! nat i) = stat' ! nat i
                  \<and> flatten_walk stat i = Inr (stat' ! nat i)"
  proof (intro allI impI)
    fix i assume i: "0 \<le> i \<and> i < int (length stat)"
    then have w: "flatten_walk stat i = Inr (stat' ! nat i)"
      using s'(5) assms(2) by simp
    have b: "0 \<le> stat' ! nat i" "stat' ! nat i \<le> i"
      using s'(2,3) i by (auto simp: parents_below_def)
    obtain r where r: "flatten_walk stat' i = Inr r" "stat' ! nat r = r"
      using flatten_walk_root [OF s'(3), of i] i s'(2) by auto
    have "flatten_walk stat' i = Inr (stat' ! nat i)"
      using s'(4) i w by simp
    with r have idem: "stat' ! nat (stat' ! nat i) = stat' ! nat i" by simp
    obtain k where "flatten_walk stat i = Inr (((\<lambda>u. stat ! nat u) ^^ k) i)"
      using flatten_walk_chain [OF pb, of i] i by blast
    with w have "stat' ! nat i = ((\<lambda>u. stat ! nat u) ^^ k) i"
      by simp
    then have chain: "\<exists>k. stat' ! nat i = ((\<lambda>u. stat ! nat u) ^^ k) i"
      by (rule exI)
    obtain r0 where "flatten_walk stat i = Inr r0" "stat ! nat r0 = r0"
      using flatten_walk_root [OF pb, of i] i by auto
    with w have root: "stat ! nat (stat' ! nat i) = stat' ! nat i"
      by simp
    from w b i idem chain root
    show "0 \<le> stat' ! nat i \<and> stat' ! nat i < int (length stat)
                  \<and> stat' ! nat (stat' ! nat i) = stat' ! nat i
                  \<and> (\<exists>k. stat' ! nat i = ((\<lambda>u. stat ! nat u) ^^ k) i)
                  \<and> stat ! nat (stat' ! nat i) = stat' ! nat i
                  \<and> flatten_walk stat i = Inr (stat' ! nat i)"
      by simp
  qed
  with s'(1,2) show ?thesis
    by (simp add: flatten_stat_def)
qed

theorem flatten_stat_flat_witness:
  "parents_below [0, 0, 1, 2] \<and> set [3, 0, 2, 1] = {0..<int (length [0, 0, 1, 2 :: int])}
   \<and> flatten_stat [3, 0, 2, 1] [0, 0, 1, 2] = Inr [0, 0, 0, 0]"
proof -
  have h1: "parents_below [0, 0, 1, 2]"
    unfolding parents_below_def
  proof (intro allI impI)
    fix v :: int
    assume "0 \<le> v \<and> v < int (length [0, 0, 1, 2 :: int])"
    then have "v = 0 \<or> v = 1 \<or> v = 2 \<or> v = 3"
      by auto
    then show "0 \<le> [0, 0, 1, 2 :: int] ! nat v \<and> [0, 0, 1, 2] ! nat v \<le> v"
      by auto
  qed
  have h2: "set [3, 0, 2, 1] = {0..<int (length [0, 0, 1, 2 :: int])}"
    by auto
  have "flatten_stat [3, 0, 2, 1] [0, 0, 1, 2] = Inr [0, 0, 0, 0]"
    using flatten_stat_flat [OF h1 h2]
    by (simp add: flatten_stat_def flatten_stat_body_def flatten_walk.simps view_at_def
        view_set_def)
  with h1 h2 show ?thesis
    by blast
qed

section \<open>Merging components and emitting edges\<close>

text \<open>
  The functor \<^verbatim>\<open>UpdateComponentsAndEdges\<close>: the labels of the \<open>2n - 1\<close> nodes, the
  outgoing edge of every component, the buffer of the edges of the tree and the count of
  the edges in it. A component is named by a leaf; the slot of component \<open>c\<close> in
  \<open>out_edges\<close> is \<open>c - n + 1\<close>. The source computes the slot in \<^verbatim>\<open>size_t\<close>, where a
  negative value wraps to one beyond every extent; the model computes it in the integers,
  where it is out of bounds as well.
\<close>

record UpdateComponentsAndEdges =
  labels :: "int list"
  out_edges :: "WeightedEdge list"
  edges :: "WeightedEdge list"
  num_edges :: int

definition computeNextComponent :: "UpdateComponentsAndEdges \<Rightarrow> int \<Rightarrow> error + int" where
  "computeNextComponent f component =
     (let n = int (length (out_edges f)) in
      case view_at (out_edges f) (component - n + 1) of
        Inl e \<Rightarrow> Inl e
      | Inr edge \<Rightarrow>
      (case view_at (labels f) (target edge) of
        Inl e \<Rightarrow> Inl e
      | Inr next_component \<Rightarrow>
      (case view_at (out_edges f) (next_component - n + 1) of
        Inl e \<Rightarrow> Inl e
      | Inr next_edge \<Rightarrow>
      (case view_at (labels f) (target next_edge) of
        Inl e \<Rightarrow> Inl e
      | Inr next_next_component \<Rightarrow>
          if next_next_component \<noteq> component then Inr next_component
          else Inr (min component next_component)))))"

partial_function (option) computeFinalComponent ::
  "UpdateComponentsAndEdges \<Rightarrow> int \<Rightarrow> (error + int) option" where
  "computeFinalComponent f prev_component =
     (case computeNextComponent f prev_component of
        Inl e \<Rightarrow> Some (Inl e)
      | Inr next_component \<Rightarrow>
          if next_component \<noteq> prev_component then computeFinalComponent f next_component
          else Some (Inr next_component))"

text \<open>
  The rule in the words of the specification: \<open>next(c)\<close> is the label of the target of the
  outgoing edge of \<open>c\<close>; a component follows it, except on a cycle of two, which is broken
  at the lesser component. \<open>spec_iterate\<close> applies the rule \<open>k\<close> times, and
  \<open>first_fixed_point f c k r\<close> says that \<open>r\<close> is reached from \<open>c\<close> after \<open>k\<close> applications, is
  a fixed point of the rule, and is the first one on the way.
\<close>

definition spec_next :: "UpdateComponentsAndEdges \<Rightarrow> int \<Rightarrow> error + int" where
  "spec_next f c =
     (case view_at (out_edges f) (c - int (length (out_edges f)) + 1) of
        Inl e \<Rightarrow> Inl e
      | Inr edge \<Rightarrow> view_at (labels f) (target edge))"

definition spec_next_component :: "UpdateComponentsAndEdges \<Rightarrow> int \<Rightarrow> error + int" where
  "spec_next_component f c =
     (case spec_next f c of
        Inl e \<Rightarrow> Inl e
      | Inr d \<Rightarrow>
          (case spec_next f d of
             Inl e \<Rightarrow> Inl e
           | Inr dd \<Rightarrow> if dd \<noteq> c then Inr d else Inr (min c d)))"

fun spec_iterate :: "UpdateComponentsAndEdges \<Rightarrow> nat \<Rightarrow> int \<Rightarrow> error + int" where
  "spec_iterate f 0 c = Inr c"
| "spec_iterate f (Suc k) c =
     (case spec_next_component f c of Inl e \<Rightarrow> Inl e | Inr d \<Rightarrow> spec_iterate f k d)"

definition first_fixed_point :: "UpdateComponentsAndEdges \<Rightarrow> int \<Rightarrow> nat \<Rightarrow> int \<Rightarrow> bool" where
  "first_fixed_point f c k r =
     (spec_iterate f k c = Inr r \<and> spec_next_component f r = Inr r
      \<and> (\<forall>j<k. \<forall>x. spec_iterate f j c = Inr x \<longrightarrow> spec_next_component f x \<noteq> Inr x))"

lemma computeNextComponent_spec: "computeNextComponent f c = spec_next_component f c"
  by (simp add: computeNextComponent_def spec_next_component_def spec_next_def Let_def
      split: sum.splits)

lemma spec_iterate_Inr_prefix:
  "spec_iterate f k c = Inr r \<Longrightarrow> j \<le> k \<Longrightarrow> \<exists>x. spec_iterate f j c = Inr x"
proof (induction k arbitrary: c j)
  case 0
  then show ?case by simp
next
  case (Suc k)
  then show ?case
    by (cases j) (auto split: sum.splits)
qed


lemma first_fixed_point_0:
  "first_fixed_point f c 0 r = (r = c \<and> spec_next_component f c = Inr c)"
  by (auto simp: first_fixed_point_def)

lemma first_fixed_point_Suc:
  "first_fixed_point f c (Suc k) r =
     (\<exists>d. spec_next_component f c = Inr d \<and> d \<noteq> c \<and> first_fixed_point f d k r)"
proof
  assume a: "first_fixed_point f c (Suc k) r"
  then obtain d where d: "spec_next_component f c = Inr d" "spec_iterate f k d = Inr r"
    by (auto simp: first_fixed_point_def split: sum.splits)
  from a have "spec_next_component f c \<noteq> Inr c"
    unfolding first_fixed_point_def by (metis spec_iterate.simps(1) zero_less_Suc)
  with d have ne: "d \<noteq> c" by auto
  have "\<forall>j<k. \<forall>x. spec_iterate f j d = Inr x \<longrightarrow> spec_next_component f x \<noteq> Inr x"
  proof (intro allI impI)
    fix j x assume "j < k" "spec_iterate f j d = Inr x"
    then have "Suc j < Suc k" "spec_iterate f (Suc j) c = Inr x"
      using d by simp_all
    with a show "spec_next_component f x \<noteq> Inr x"
      unfolding first_fixed_point_def by blast
  qed
  with a d ne show "\<exists>d. spec_next_component f c = Inr d \<and> d \<noteq> c \<and> first_fixed_point f d k r"
    by (auto simp: first_fixed_point_def)
next
  assume "\<exists>d. spec_next_component f c = Inr d \<and> d \<noteq> c \<and> first_fixed_point f d k r"
  then obtain d where d: "spec_next_component f c = Inr d" "d \<noteq> c" "first_fixed_point f d k r"
    by blast
  have "\<forall>j<Suc k. \<forall>x. spec_iterate f j c = Inr x \<longrightarrow> spec_next_component f x \<noteq> Inr x"
  proof (intro allI impI)
    fix j x assume j: "j < Suc k" "spec_iterate f j c = Inr x"
    show "spec_next_component f x \<noteq> Inr x"
    proof (cases j)
      case 0
      with j d show ?thesis by simp
    next
      case (Suc i)
      with j d show ?thesis by (auto simp: first_fixed_point_def)
    qed
  qed
  with d show "first_fixed_point f c (Suc k) r"
    by (simp add: first_fixed_point_def)
qed

lemma computeFinalComponent_fixed:
  "computeNextComponent f c = Inr c \<Longrightarrow> computeFinalComponent f c = Some (Inr c)"
  by (subst computeFinalComponent.simps) simp

lemma computeFinalComponent_step:
  "computeNextComponent f c = Inr d \<Longrightarrow> d \<noteq> c \<Longrightarrow>
   computeFinalComponent f c = computeFinalComponent f d"
  by (subst computeFinalComponent.simps) simp

lemma computeFinalComponent_error:
  "computeNextComponent f c = Inl e \<Longrightarrow> computeFinalComponent f c = Some (Inl e)"
  by (subst computeFinalComponent.simps) simp

lemma first_fixed_point_final:
  "first_fixed_point f c k r \<Longrightarrow> computeFinalComponent f c = Some (Inr r)"
proof (induction k arbitrary: c)
  case 0
  then show ?case
    by (simp add: first_fixed_point_0 computeFinalComponent_fixed computeNextComponent_spec)
next
  case (Suc k)
  then obtain d where d: "spec_next_component f c = Inr d" "d \<noteq> c" "first_fixed_point f d k r"
    by (auto simp: first_fixed_point_Suc)
  then show ?case
    using Suc.IH [of d] computeFinalComponent_step [of f c d]
    by (simp add: computeNextComponent_spec)
qed

lemma final_first_fixed_point:
  assumes "computeFinalComponent f c = Some y"
  shows "\<forall>r. y = Inr r \<longrightarrow> (\<exists>k. first_fixed_point f c k r)"
proof (rule computeFinalComponent.raw_induct
    [where P = "\<lambda>f c y. \<forall>r. y = Inr r \<longrightarrow> (\<exists>k. first_fixed_point f c k r)", OF _ assms])
  fix self f c y
  assume IH: "\<And>f c y. self f c = Some y \<Longrightarrow>
                \<forall>r. y = Inr r \<longrightarrow> (\<exists>k. first_fixed_point f c k r)"
    and body: "(case computeNextComponent f c of
                  Inl e \<Rightarrow> Some (Inl e)
                | Inr next_component \<Rightarrow>
                    if next_component \<noteq> c then self f next_component
                    else Some (Inr next_component)) = Some y"
  show "\<forall>r. y = Inr r \<longrightarrow> (\<exists>k. first_fixed_point f c k r)"
  proof (intro allI impI)
    fix r assume y: "y = Inr r"
    show "\<exists>k. first_fixed_point f c k r"
    proof (cases "computeNextComponent f c")
      case (Inl e)
      with body y show ?thesis by simp
    next
      case (Inr d)
      show ?thesis
      proof (cases "d = c")
        case True
        with body Inr y have "r = c" by simp
        with Inr True have "first_fixed_point f c 0 r"
          by (simp add: first_fixed_point_0 computeNextComponent_spec)
        then show ?thesis ..
      next
        case False
        with body Inr have "self f d = Some y" by simp
        then obtain k where "first_fixed_point f d k r"
          using IH y by blast
        with Inr False have "first_fixed_point f c (Suc k) r"
          by (auto simp: first_fixed_point_Suc computeNextComponent_spec)
        then show ?thesis ..
      qed
    qed
  qed
qed

text \<open>
  C3. \<open>computeNextComponent\<close> computes the rule of the specification, and
  \<open>computeFinalComponent\<close> returns \<open>r\<close> exactly when iterating the rule from \<open>c\<close> reaches
  \<open>r\<close> as its first fixed point.
\<close>

theorem computeFinalComponent_iterates_rule:
  "computeNextComponent f c = spec_next_component f c
   \<and> (computeFinalComponent f c = Some (Inr r) \<longleftrightarrow> (\<exists>k. first_fixed_point f c k r))"
  using computeNextComponent_spec final_first_fixed_point first_fixed_point_final
  by blast


theorem computeFinalComponent_iterates_rule_witness:
  "computeFinalComponent
     \<lparr>labels = [2, 2, 2, 3, 4],
      out_edges = [\<lparr>source = 2, target = 3, weight = Finite 1\<rparr>,
                   \<lparr>source = 3, target = 2, weight = Finite 1\<rparr>,
                   \<lparr>source = 4, target = 3, weight = Finite 2\<rparr>],
      edges = [], num_edges = 0\<rparr> 4 = Some (Inr 2)
   \<and> first_fixed_point
     \<lparr>labels = [2, 2, 2, 3, 4],
      out_edges = [\<lparr>source = 2, target = 3, weight = Finite 1\<rparr>,
                   \<lparr>source = 3, target = 2, weight = Finite 1\<rparr>,
                   \<lparr>source = 4, target = 3, weight = Finite 2\<rparr>],
      edges = [], num_edges = 0\<rparr> 4 2 2"
proof -
  let ?f = "\<lparr>labels = [2, 2, 2, 3, 4],
      out_edges = [\<lparr>source = 2, target = 3, weight = Finite 1\<rparr>,
                   \<lparr>source = 3, target = 2, weight = Finite 1\<rparr>,
                   \<lparr>source = 4, target = 3, weight = Finite 2\<rparr>],
      edges = [], num_edges = 0\<rparr>"
  have n4: "spec_next_component ?f 4 = Inr 3"
    by (simp add: spec_next_component_def spec_next_def view_at_def)
  have n3: "spec_next_component ?f 3 = Inr 2"
    by (simp add: spec_next_component_def spec_next_def view_at_def)
  have n2: "spec_next_component ?f 2 = Inr 2"
    by (simp add: spec_next_component_def spec_next_def view_at_def)
  have "first_fixed_point ?f 4 (Suc (Suc 0)) 2"
    by (simp add: first_fixed_point_Suc first_fixed_point_0 n4 n3 n2)
  then have ffp: "first_fixed_point ?f 4 2 2"
    by (simp add: numeral_2_eq_2)
  then have "computeFinalComponent ?f 4 = Some (Inr 2)"
    using computeFinalComponent_iterates_rule [of ?f 4 2] by blast
  with ffp show ?thesis
    by simp
qed

section \<open>Walking a graph whose cycles have length two\<close>

text \<open>
  The rule on a total successor function \<open>g\<close>. When every cycle of \<open>g\<close> on a finite set
  closed under \<open>g\<close> has length at most two, iterating the rule from an element of the set
  meets a fixed point before it has made as many steps as the set has elements: until
  then the elements it visits are distinct.
\<close>

definition break_cycle :: "(int \<Rightarrow> int) \<Rightarrow> int \<Rightarrow> int" where
  "break_cycle g x = (if g (g x) \<noteq> x then g x else min x (g x))"

lemma break_cycle_cases: "break_cycle g x = x \<or> break_cycle g x = g x"
  by (auto simp: break_cycle_def min_def)

lemma break_cycle_closed: "x \<in> S \<Longrightarrow> g x \<in> S \<Longrightarrow> break_cycle g x \<in> S"
  using break_cycle_cases [of g x] by auto

lemma chain_follows_g:
  assumes "\<forall>j<m. break_cycle g ((break_cycle g ^^ j) c) \<noteq> (break_cycle g ^^ j) c"
  shows "j \<le> m \<Longrightarrow> (break_cycle g ^^ j) c = (g ^^ j) c"
proof (induction j)
  case 0
  then show ?case by simp
next
  case (Suc j)
  from Suc.prems have "j < m" by simp
  then have "break_cycle g ((break_cycle g ^^ j) c) \<noteq> (break_cycle g ^^ j) c"
    using assms by blast
  then have "break_cycle g ((break_cycle g ^^ j) c) = g ((break_cycle g ^^ j) c)"
    using break_cycle_cases [of g "(break_cycle g ^^ j) c"] by simp
  with Suc show ?case by simp
qed

lemma chain_distinct:
  assumes two: "\<forall>x\<in>S. \<forall>k>0. (g ^^ k) x = x \<longrightarrow> g (g x) = x"
    and closed: "\<forall>x\<in>S. g x \<in> S" and c: "c \<in> S"
    and nofix: "\<forall>j<m. break_cycle g ((break_cycle g ^^ j) c) \<noteq> (break_cycle g ^^ j) c"
  shows "inj_on (\<lambda>j. (break_cycle g ^^ j) c) {..m}"
proof (rule inj_onI, rule ccontr)
  fix a b assume ab: "a \<in> {..m}" "b \<in> {..m}"
    "(break_cycle g ^^ a) c = (break_cycle g ^^ b) c" "a \<noteq> b"
  define i where "i = min a b"
  define j where "j = max a b"
  have ij: "i < j" "j \<le> m" "(break_cycle g ^^ i) c = (break_cycle g ^^ j) c"
    using ab by (auto simp: i_def j_def min_def max_def)
  let ?x = "(g ^^ i) c"
  have inS: "\<And>k. (g ^^ k) c \<in> S"
  proof -
    fix k show "(g ^^ k) c \<in> S"
      by (induction k) (use c closed in auto)
  qed
  have xi: "(break_cycle g ^^ i) c = ?x" and xj: "(break_cycle g ^^ j) c = (g ^^ j) c"
    using chain_follows_g [OF nofix] ij by simp_all
  have "(g ^^ ((j - i) + i)) c = (g ^^ (j - i)) ?x"
    by (simp only: funpow_add comp_def)
  then have "(g ^^ (j - i)) ?x = (g ^^ j) c"
    using ij(1) by simp
  then have cyc: "(g ^^ (j - i)) ?x = ?x"
    using xi xj ij(3) by simp
  have gg: "g (g ?x) = ?x"
    using two inS [of i] cyc ij(1) by (metis zero_less_diff)
  have im: "i < m" using ij by simp
  then have nf: "break_cycle g ?x \<noteq> ?x"
    using nofix xi by metis
  then have lt: "g ?x < ?x"
    using gg by (auto simp: break_cycle_def min_def split: if_splits)
  have step: "(break_cycle g ^^ Suc i) c = g ?x"
    using chain_follows_g [OF nofix, of "Suc i"] im by simp
  have fixd: "break_cycle g (g ?x) = g ?x"
    using gg lt by (simp add: break_cycle_def min_def)
  have "\<not> Suc i < m"
    using nofix step fixd by metis
  then have "j = Suc i" using ij by simp
  then have "(break_cycle g ^^ j) c = g ?x" using step by simp
  then show False using ij(3) xi lt by simp
qed

lemma walk_reaches_fixed_point:
  assumes fin: "finite S"
    and two: "\<forall>x\<in>S. \<forall>k>0. (g ^^ k) x = x \<longrightarrow> g (g x) = x"
    and closed: "\<forall>x\<in>S. g x \<in> S" and c: "c \<in> S"
  shows "\<exists>k<card S. break_cycle g ((break_cycle g ^^ k) c) = (break_cycle g ^^ k) c
            \<and> (\<forall>j<k. break_cycle g ((break_cycle g ^^ j) c) \<noteq> (break_cycle g ^^ j) c)"
proof -
  let ?x = "\<lambda>j. (break_cycle g ^^ j) c"
  have inS: "\<And>k. ?x k \<in> S"
  proof -
    fix k show "?x k \<in> S"
      by (induction k) (use c closed break_cycle_closed in auto)
  qed
  have ex: "\<exists>k<card S. break_cycle g (?x k) = ?x k"
  proof (rule ccontr)
    assume "\<not> ?thesis"
    then have nofix: "\<forall>j<card S. break_cycle g (?x j) \<noteq> ?x j"
      by blast
    have "inj_on ?x {..card S}"
      using chain_distinct [OF two closed c nofix] .
    moreover have "?x ` {..card S} \<subseteq> S"
      using inS by blast
    ultimately have "card {..card S} \<le> card S"
      using fin card_inj_on_le by blast
    then show False by simp
  qed
  define k where "k = (LEAST k. break_cycle g (?x k) = ?x k)"
  from ex obtain k0 where k0: "k0 < card S" "break_cycle g (?x k0) = ?x k0"
    by blast
  have "break_cycle g (?x k) = ?x k"
    unfolding k_def using k0(2) by (rule LeastI)
  moreover have "k \<le> k0"
    unfolding k_def using k0(2) by (rule Least_le)
  moreover have "\<forall>j<k. break_cycle g (?x j) \<noteq> ?x j"
    unfolding k_def using not_less_Least by blast
  ultimately show ?thesis
    using k0(1) by (intro exI [of _ k]) simp
qed

section \<open>Termination of the walk to the final component\<close>

text \<open>
  \<open>spec_follow f k c\<close> follows the edges of the graph \<open>c \<rightarrow> label(target(out_edges[c]))\<close>
  \<open>k\<close> times. The components of a round are the labels of the leaves.
\<close>

fun spec_follow :: "UpdateComponentsAndEdges \<Rightarrow> nat \<Rightarrow> int \<Rightarrow> error + int" where
  "spec_follow f 0 c = Inr c"
| "spec_follow f (Suc k) c =
     (case spec_next f c of Inl e \<Rightarrow> Inl e | Inr d \<Rightarrow> spec_follow f k d)"

definition components :: "UpdateComponentsAndEdges \<Rightarrow> int set" where
  "components f = set (drop (length (out_edges f) - 1) (labels f))"

definition graph_closed :: "UpdateComponentsAndEdges \<Rightarrow> int set \<Rightarrow> bool" where
  "graph_closed f S = (\<forall>c\<in>S. \<exists>d\<in>S. spec_next f c = Inr d)"

definition cycles_have_length_two :: "UpdateComponentsAndEdges \<Rightarrow> int set \<Rightarrow> bool" where
  "cycles_have_length_two f S =
     (\<forall>c\<in>S. \<forall>k>0. spec_follow f k c = Inr c \<longrightarrow> spec_follow f 2 c = Inr c)"

definition successor :: "UpdateComponentsAndEdges \<Rightarrow> int \<Rightarrow> int" where
  "successor f c = projr (spec_next f c)"

lemma successor_closed:
  "graph_closed f S \<Longrightarrow> c \<in> S \<Longrightarrow> spec_next f c = Inr (successor f c) \<and> successor f c \<in> S"
  by (auto simp: graph_closed_def successor_def)

lemma successor_funpow_closed:
  "graph_closed f S \<Longrightarrow> c \<in> S \<Longrightarrow> (successor f ^^ k) c \<in> S"
  by (induction k) (auto dest: successor_closed)

lemma spec_follow_successor:
  "graph_closed f S \<Longrightarrow> c \<in> S \<Longrightarrow> spec_follow f k c = Inr ((successor f ^^ k) c)"
proof (induction k arbitrary: c)
  case 0
  then show ?case by simp
next
  case (Suc k)
  then have "spec_next f c = Inr (successor f c)" "successor f c \<in> S"
    using successor_closed by blast+
  then show ?case
    using Suc.IH [of "successor f c"] Suc.prems(1) by (simp add: funpow_swap1)
qed

lemma spec_next_component_break_cycle:
  assumes "graph_closed f S" "c \<in> S"
  shows "spec_next_component f c = Inr (break_cycle (successor f) c)"
proof -
  have "spec_next f c = Inr (successor f c)" "successor f c \<in> S"
    using successor_closed [OF assms] by blast+
  moreover from this have "spec_next f (successor f c) = Inr (successor f (successor f c))"
    using successor_closed [OF assms(1)] by blast
  ultimately show ?thesis
    by (simp add: spec_next_component_def break_cycle_def)
qed

lemma break_cycle_funpow_closed:
  "graph_closed f S \<Longrightarrow> c \<in> S \<Longrightarrow> (break_cycle (successor f) ^^ k) c \<in> S"
  by (induction k) (auto dest: successor_closed intro: break_cycle_closed)

lemma spec_iterate_break_cycle:
  "graph_closed f S \<Longrightarrow> c \<in> S \<Longrightarrow>
   spec_iterate f k c = Inr ((break_cycle (successor f) ^^ k) c)"
proof (induction k arbitrary: c)
  case 0
  then show ?case by simp
next
  case (Suc k)
  have "break_cycle (successor f) c \<in> S"
    using break_cycle_funpow_closed [OF Suc.prems, of 1] by simp
  then show ?case
    using Suc.IH [of "break_cycle (successor f) c"] Suc.prems
    by (simp add: spec_next_component_break_cycle funpow_swap1)
qed

lemma final_component_exists:
  assumes fin: "finite S" and closed: "graph_closed f S"
    and two: "cycles_have_length_two f S" and c: "c \<in> S"
  shows "\<exists>k r. k < card S \<and> r \<in> S \<and> first_fixed_point f c k r"
proof -
  let ?g = "successor f"
  have g2: "\<forall>x\<in>S. \<forall>k>0. (?g ^^ k) x = x \<longrightarrow> ?g (?g x) = x"
  proof (intro ballI allI impI)
    fix x k assume x: "x \<in> S" and k: "0 < (k::nat)" and cyc: "(?g ^^ k) x = x"
    then have "spec_follow f k x = Inr x"
      using spec_follow_successor [OF closed x, of k] by simp
    then have "spec_follow f 2 x = Inr x"
      using two x k by (auto simp: cycles_have_length_two_def)
    then show "?g (?g x) = x"
      using spec_follow_successor [OF closed x, of 2] by (simp add: numeral_2_eq_2)
  qed
  have gc: "\<forall>x\<in>S. ?g x \<in> S"
    using successor_closed [OF closed] by blast
  obtain k where k: "k < card S"
      "break_cycle ?g ((break_cycle ?g ^^ k) c) = (break_cycle ?g ^^ k) c"
      "\<forall>j<k. break_cycle ?g ((break_cycle ?g ^^ j) c) \<noteq> (break_cycle ?g ^^ j) c"
    using walk_reaches_fixed_point [OF fin g2 gc c] by blast
  let ?r = "(break_cycle ?g ^^ k) c"
  have r: "?r \<in> S"
    using break_cycle_funpow_closed [OF closed c] .
  have "first_fixed_point f c k ?r"
    unfolding first_fixed_point_def
  proof (intro conjI allI impI)
    show "spec_iterate f k c = Inr ?r"
      using spec_iterate_break_cycle [OF closed c] .
    show "spec_next_component f ?r = Inr ?r"
      using spec_next_component_break_cycle [OF closed r] k(2) by simp
  next
    fix j x assume j: "j < k" and x: "spec_iterate f j c = Inr x"
    then have xe: "x = (break_cycle ?g ^^ j) c"
      using spec_iterate_break_cycle [OF closed c, of j] by simp
    then have "x \<in> S"
      using break_cycle_funpow_closed [OF closed c] by simp
    then show "spec_next_component f x \<noteq> Inr x"
      using spec_next_component_break_cycle [OF closed] k(3) j xe by simp
  qed
  with k(1) r show ?thesis by blast
qed

text \<open>
  C9. When the label of the target of every component's edge is a component again, and
  every cycle of that graph has length at most two, \<open>computeFinalComponent\<close> returns for
  every component: it reaches a fixed point of \<open>computeNextComponent\<close> after fewer
  applications than there are components.
\<close>

theorem computeFinalComponent_terminates:
  assumes "graph_closed f (components f)" and "cycles_have_length_two f (components f)"
    and "c \<in> components f"
  shows "\<exists>k r. k < card (components f) \<and> first_fixed_point f c k r
               \<and> computeNextComponent f r = Inr r
               \<and> computeFinalComponent f c = Some (Inr r)"
proof -
  have "finite (components f)"
    by (simp add: components_def)
  then obtain k r where kr: "k < card (components f)" "first_fixed_point f c k r"
    using final_component_exists assms by blast
  then have "computeFinalComponent f c = Some (Inr r)"
    by (simp add: first_fixed_point_final)
  moreover have "computeNextComponent f r = Inr r"
    using kr(2) by (simp add: first_fixed_point_def computeNextComponent_spec)
  ultimately show ?thesis
    using kr by blast
qed


theorem computeFinalComponent_terminates_witness:
  "graph_closed
     \<lparr>labels = [2, 2, 2, 3, 4],
      out_edges = [\<lparr>source = 2, target = 3, weight = Finite 1\<rparr>,
                   \<lparr>source = 3, target = 2, weight = Finite 1\<rparr>,
                   \<lparr>source = 4, target = 3, weight = Finite 2\<rparr>],
      edges = [], num_edges = 0\<rparr> {2, 3, 4}
   \<and> cycles_have_length_two
     \<lparr>labels = [2, 2, 2, 3, 4],
      out_edges = [\<lparr>source = 2, target = 3, weight = Finite 1\<rparr>,
                   \<lparr>source = 3, target = 2, weight = Finite 1\<rparr>,
                   \<lparr>source = 4, target = 3, weight = Finite 2\<rparr>],
      edges = [], num_edges = 0\<rparr> {2, 3, 4}
   \<and> computeFinalComponent
     \<lparr>labels = [2, 2, 2, 3, 4],
      out_edges = [\<lparr>source = 2, target = 3, weight = Finite 1\<rparr>,
                   \<lparr>source = 3, target = 2, weight = Finite 1\<rparr>,
                   \<lparr>source = 4, target = 3, weight = Finite 2\<rparr>],
      edges = [], num_edges = 0\<rparr> 4 = Some (Inr 2)
   \<and> (\<exists>k<3. first_fixed_point
     \<lparr>labels = [2, 2, 2, 3, 4],
      out_edges = [\<lparr>source = 2, target = 3, weight = Finite 1\<rparr>,
                   \<lparr>source = 3, target = 2, weight = Finite 1\<rparr>,
                   \<lparr>source = 4, target = 3, weight = Finite 2\<rparr>],
      edges = [], num_edges = 0\<rparr> 4 k 2)"
proof -
  let ?f = "\<lparr>labels = [2, 2, 2, 3, 4],
      out_edges = [\<lparr>source = 2, target = 3, weight = Finite 1\<rparr>,
                   \<lparr>source = 3, target = 2, weight = Finite 1\<rparr>,
                   \<lparr>source = 4, target = 3, weight = Finite 2\<rparr>],
      edges = [], num_edges = 0\<rparr>"
  have comps: "components ?f = {2, 3, 4}"
    by (auto simp: components_def)
  have s2: "spec_next ?f 2 = Inr 3" and s3: "spec_next ?f 3 = Inr 2"
    and s4: "spec_next ?f 4 = Inr 3"
    by (simp_all add: spec_next_def view_at_def)
  have closed: "graph_closed ?f {2, 3, 4}"
    by (simp add: graph_closed_def s2 s3 s4)
  have in_cycle: "\<And>k. spec_follow ?f k 2 \<in> {Inr 2, Inr 3} \<and> spec_follow ?f k 3 \<in> {Inr 2, Inr 3}"
  proof -
    fix k show "spec_follow ?f k 2 \<in> {Inr 2, Inr 3} \<and> spec_follow ?f k 3 \<in> {Inr 2, Inr 3}"
      by (induction k) (auto simp: s2 s3)
  qed
  have two: "cycles_have_length_two ?f {2, 3, 4}"
    unfolding cycles_have_length_two_def
  proof (intro ballI allI impI)
    fix c :: int and k :: nat
    assume c: "c \<in> {2, 3, 4}" and k: "0 < k" and cyc: "spec_follow ?f k c = Inr c"
    show "spec_follow ?f 2 c = Inr c"
    proof (cases "c = 4")
      case True
      obtain j where "k = Suc j" using k by (cases k) auto
      with cyc True have "spec_follow ?f j 3 = Inr 4" by (simp add: s4)
      with in_cycle [of j] show ?thesis by simp
    next
      case False
      with c show ?thesis
        by (auto simp: numeral_2_eq_2 s2 s3)
    qed
  qed
  have c: "4 \<in> components ?f"
    by (simp add: comps)
  have final: "computeFinalComponent ?f 4 = Some (Inr 2)"
    by (simp add: computeFinalComponent.simps computeNextComponent_def view_at_def)
  obtain k r where kr: "k < card (components ?f)" "first_fixed_point ?f 4 k r"
      "computeFinalComponent ?f 4 = Some (Inr r)"
    using computeFinalComponent_terminates [of ?f 4] closed two c comps by auto
  from kr(3) final have "r = 2"
    by simp
  moreover have "k < 3"
    using kr(1) by (simp add: comps)
  ultimately have "\<exists>k<3. first_fixed_point ?f 4 k 2"
    using kr(2) by blast
  with closed two final show ?thesis
    by blast
qed

section \<open>The hierarchy and the metric\<close>

text \<open>
  The bounding volume hierarchy is built outside the code verified here. The kernels reach
  it through the accessors of \<^verbatim>\<open>HappyTreeFriends\<close> only, which are the fields of this
  record; \<open>distance bvh i j\<close> is the distance between the bounding volumes of the nodes
  \<open>i\<close> and \<open>j\<close>.
\<close>

record BVH =
  bvh_size :: nat
  getRoot :: int
  getLeftChild :: "int \<Rightarrow> int"
  getRightChild :: "int \<Rightarrow> int"
  isLeaf :: "int \<Rightarrow> bool"
  getLeafPermutationIndex :: "int \<Rightarrow> int"
  distance :: "int \<Rightarrow> int \<Rightarrow> float32"

text \<open>
  \<^verbatim>\<open>Kokkos::atomic_min\<close> replaces the stored value by \<^verbatim>\<open>old < val ? old : val\<close>, under
  \<open><\<close> of the value type: the stored value stays only when it is less than the given
  one. Work items run one after another here, so it is a plain update.
\<close>

definition atomic_min_float :: "float32 \<Rightarrow> float32 \<Rightarrow> float32" where
  "atomic_min_float dest val = (if float_less dest val then dest else val)"

definition atomic_min_edge :: "WeightedEdge \<Rightarrow> WeightedEdge \<Rightarrow> WeightedEdge" where
  "atomic_min_edge dest val = (if operator_less dest val then dest else val)"

text \<open>
  Modelled from the spec: the metric functors \<^verbatim>\<open>Euclidean\<close> and
  \<^verbatim>\<open>MutualReachability\<close>, whose header is not among the sources. The first returns the
  distance it is given, the second the maximum of the distance and the core distances of
  the two points.
\<close>

definition float_max :: "float32 \<Rightarrow> float32 \<Rightarrow> float32" where
  "float_max a b = (if float_less a b then b else a)"

datatype Metric = Euclidean | MutualReachability "float32 list"

fun metric_apply :: "Metric \<Rightarrow> int \<Rightarrow> int \<Rightarrow> float32 \<Rightarrow> error + float32" where
  "metric_apply Euclidean i j d = Inr d"
| "metric_apply (MutualReachability core_distances) i j d =
     (case view_at core_distances i of
        Inl e \<Rightarrow> Inl e
      | Inr core_i \<Rightarrow>
          (case view_at core_distances j of
             Inl e \<Rightarrow> Inl e
           | Inr core_j \<Rightarrow> Inr (float_max (float_max core_i core_j) d)))"

section \<open>Finding the nearest neighbour of every component\<close>

text \<open>The functor \<^verbatim>\<open>FindComponentNearestNeighbors\<close>.\<close>

record FindComponentNearestNeighbors =
  find_bvh :: BVH
  find_labels :: "int list"
  find_edges :: "WeightedEdge list"
  find_metric :: Metric
  find_radii :: "float32 list"

definition undetermined :: int where
  "undetermined = -1"

definition SENTINEL :: int where
  "SENTINEL = -1"

definition stack_capacity :: nat where
  "stack_capacity = 64"

text \<open>
  The local variables of one work item during the traversal, and the shared radii. The
  two stacks are lists with the top first; each holds at most \<open>stack_capacity\<close> entries,
  and a push onto a full stack is an error.
\<close>

record traversal =
  node :: int
  distance_node :: float32
  stack :: "int list"
  stack_distance :: "float32 list"
  current_best :: WeightedEdge
  radii :: "float32 list"

text \<open>
  The block the source runs for the left and then for the right child: a child of another
  label within the radius is a candidate when it is a leaf and is scheduled otherwise. The
  result is the best edge, the radii and the flag \<^verbatim>\<open>traverse_left\<close>
  (\<^verbatim>\<open>traverse_right\<close>).
\<close>

definition visit_child ::
  "FindComponentNearestNeighbors \<Rightarrow> int \<Rightarrow> int \<Rightarrow> int \<Rightarrow> nat \<Rightarrow> int \<Rightarrow> float32 \<Rightarrow>
   WeightedEdge \<Rightarrow> float32 list \<Rightarrow> error + (WeightedEdge \<times> float32 list \<times> bool)" where
  "visit_child F i component leaf_permutation_i slot child distance_child best rad =
     (case view_at (find_labels F) child of
        Inl e \<Rightarrow> Inl e
      | Inr label_child \<Rightarrow>
          if component \<noteq> label_child \<and> float_le distance_child (rad ! slot) then
            if isLeaf (find_bvh F) child then
              (case metric_apply (find_metric F) leaf_permutation_i
                      (getLeafPermutationIndex (find_bvh F) child) distance_child of
                 Inl e \<Rightarrow> Inl e
               | Inr candidate_dist \<Rightarrow>
                   let candidate_edge = \<lparr>source = i, target = child, weight = candidate_dist\<rparr>
                   in if operator_less candidate_edge best
                      then Inr (candidate_edge,
                                rad[slot := atomic_min_float (rad ! slot) candidate_dist],
                                False)
                      else Inr (best, rad, False))
            else Inr (best, rad, True)
          else Inr (best, rad, False))"

definition push :: "'a list \<Rightarrow> 'a \<Rightarrow> error + 'a list" where
  "push st x = (if length st < stack_capacity then Inr (x # st) else Inl StackOverflow)"

text \<open>The first half of an iteration: the test of the node against the radius.\<close>

definition visit_children ::
  "FindComponentNearestNeighbors \<Rightarrow> int \<Rightarrow> int \<Rightarrow> int \<Rightarrow> nat \<Rightarrow> traversal \<Rightarrow>
   error + (WeightedEdge \<times> float32 list \<times> bool \<times> bool)" where
  "visit_children F i component leaf_permutation_i slot s =
     (let bvh = find_bvh F in
      if float_le (distance_node s) (radii s ! slot) then
        let left_child = getLeftChild bvh (node s);
            right_child = getRightChild bvh (node s);
            distance_left = distance bvh i left_child;
            distance_right = distance bvh i right_child
        in
        (case visit_child F i component leaf_permutation_i slot left_child distance_left
                (current_best s) (radii s) of
           Inl e \<Rightarrow> Inl e
         | Inr (best_l, radii_l, traverse_left) \<Rightarrow>
             (case visit_child F i component leaf_permutation_i slot right_child
                     distance_right best_l radii_l of
                Inl e \<Rightarrow> Inl e
              | Inr (best_r, radii_r, traverse_right) \<Rightarrow>
                  Inr (best_r, radii_r, traverse_left, traverse_right)))
      else Inr (current_best s, radii s, False, False))"

text \<open>The second half: pop, or descend to the closer scheduled child and push the other.\<close>

definition advance ::
  "BVH \<Rightarrow> int \<Rightarrow> traversal \<Rightarrow> bool \<Rightarrow> bool \<Rightarrow> error + traversal" where
  "advance bvh i s traverse_left traverse_right =
     (let left_child = getLeftChild bvh (node s);
          right_child = getRightChild bvh (node s);
          distance_left = distance bvh i left_child;
          distance_right = distance bvh i right_child
      in
      if \<not> traverse_left \<and> \<not> traverse_right then
        (case (stack s, stack_distance s) of
           (top_node # rest, top_distance # rest_distance) \<Rightarrow>
             Inr (s\<lparr>node := top_node, distance_node := top_distance, stack := rest,
                    stack_distance := rest_distance\<rparr>)
         | _ \<Rightarrow> Inl OutOfBounds)
      else
        let node' = (if traverse_left \<and> (float_le distance_left distance_right
                                          \<or> \<not> traverse_right)
                     then left_child else right_child);
            distance_node' = (if node' = left_child then distance_left else distance_right)
        in if traverse_left \<and> traverse_right then
             (case push (stack s) (if node' = left_child then right_child else left_child) of
                Inl e \<Rightarrow> Inl e
              | Inr stack' \<Rightarrow>
                  (case push (stack_distance s)
                          (if node' = left_child then distance_right else distance_left) of
                     Inl e \<Rightarrow> Inl e
                   | Inr stack_distance' \<Rightarrow>
                       Inr (s\<lparr>node := node', distance_node := distance_node',
                              stack := stack', stack_distance := stack_distance'\<rparr>)))
           else Inr (s\<lparr>node := node', distance_node := distance_node'\<rparr>))"

definition traversal_step ::
  "FindComponentNearestNeighbors \<Rightarrow> int \<Rightarrow> int \<Rightarrow> int \<Rightarrow> nat \<Rightarrow> traversal \<Rightarrow> error + traversal" where
  "traversal_step F i component leaf_permutation_i slot s =
     (case visit_children F i component leaf_permutation_i slot s of
        Inl e \<Rightarrow> Inl e
      | Inr (best, radii', traverse_left, traverse_right) \<Rightarrow>
          advance (find_bvh F) i (s\<lparr>current_best := best, radii := radii'\<rparr>)
            traverse_left traverse_right)"

text \<open>The loop \<^verbatim>\<open>do { ... } while (node != SENTINEL)\<close>.\<close>

partial_function (option) traversal_loop ::
  "FindComponentNearestNeighbors \<Rightarrow> int \<Rightarrow> int \<Rightarrow> int \<Rightarrow> nat \<Rightarrow> traversal \<Rightarrow>
   (error + traversal) option" where
  "traversal_loop F i component leaf_permutation_i slot s =
     (case traversal_step F i component leaf_permutation_i slot s of
        Inl e \<Rightarrow> Some (Inl e)
      | Inr s' \<Rightarrow>
          if node s' \<noteq> SENTINEL
          then traversal_loop F i component leaf_permutation_i slot s'
          else Some (Inr s'))"


definition traversal_start :: "BVH \<Rightarrow> WeightedEdge \<Rightarrow> float32 list \<Rightarrow> traversal" where
  "traversal_start bvh best rad =
     \<lparr>node = getRoot bvh, distance_node = Finite 0, stack = [SENTINEL],
      stack_distance = [Finite 0], current_best = best, radii = rad\<rparr>"

text \<open>
  \<open>at_depth bvh v d\<close>: the node \<open>v\<close> is reached from the root by \<open>d\<close> child links, each
  taken from a node that is not a leaf. The tree has depth at most \<open>D\<close> when no node is
  reached by more links.
\<close>

inductive at_depth :: "BVH \<Rightarrow> int \<Rightarrow> nat \<Rightarrow> bool" for bvh :: BVH where
  at_root: "at_depth bvh (getRoot bvh) 0"
| at_left: "at_depth bvh v d \<Longrightarrow> \<not> isLeaf bvh v \<Longrightarrow> at_depth bvh (getLeftChild bvh v) (Suc d)"
| at_right: "at_depth bvh v d \<Longrightarrow> \<not> isLeaf bvh v \<Longrightarrow> at_depth bvh (getRightChild bvh v) (Suc d)"

definition depth_at_most :: "BVH \<Rightarrow> nat \<Rightarrow> bool" where
  "depth_at_most bvh D = (\<forall>v d. at_depth bvh v d \<longrightarrow> d \<le> D)"

text \<open>
  The states in which an iteration of the loop starts: the initial one, and every state
  with a node other than the sentinel that an iteration produces. The radii are shared
  with the work items of the same component, which may lower them between two
  iterations.
\<close>

inductive visited ::
  "FindComponentNearestNeighbors \<Rightarrow> int \<Rightarrow> int \<Rightarrow> int \<Rightarrow> nat \<Rightarrow> traversal \<Rightarrow> bool"
  for F :: FindComponentNearestNeighbors and i component leaf_permutation_i :: int and slot :: nat
  where
  visited_start: "visited F i component leaf_permutation_i slot (traversal_start (find_bvh F) best rad)"
| visited_step:
    "visited F i component leaf_permutation_i slot s \<Longrightarrow>
     traversal_step F i component leaf_permutation_i slot s = Inr s' \<Longrightarrow>
     node s' \<noteq> SENTINEL \<Longrightarrow>
     visited F i component leaf_permutation_i slot s'"
| visited_interference:
    "visited F i component leaf_permutation_i slot s \<Longrightarrow>
     visited F i component leaf_permutation_i slot (s\<lparr>radii := rad\<rparr>)"

text \<open>
  The invariant of the stack: above the sentinel, the entries are inner nodes of strictly
  increasing depth, none deeper than the bound.
\<close>

fun stack_inv :: "BVH \<Rightarrow> nat \<Rightarrow> int list \<Rightarrow> bool" where
  "stack_inv bvh bound [] = False"
| "stack_inv bvh bound [x] = (x = SENTINEL)"
| "stack_inv bvh bound (x # y # rest) =
     (\<exists>d. 0 < d \<and> d \<le> bound \<and> at_depth bvh x d \<and> \<not> isLeaf bvh x
          \<and> stack_inv bvh (d - 1) (y # rest))"

lemma stack_inv_mono: "stack_inv bvh b st \<Longrightarrow> b \<le> b' \<Longrightarrow> stack_inv bvh b' st"
  by (induction bvh b st rule: stack_inv.induct) auto

lemma stack_inv_length: "stack_inv bvh b st \<Longrightarrow> length st \<le> b + 1"
proof (induction bvh b st rule: stack_inv.induct)
  case (3 bvh bound x y rest)
  then obtain d where d: "0 < d" "d \<le> bound" "stack_inv bvh (d - 1) (y # rest)"
    by auto
  then have "length (y # rest) \<le> (d - 1) + 1"
    using 3(1) by blast
  with d show ?case by simp
qed simp_all

lemma visit_child_flag:
  "visit_child F i component lp slot child dc best rad = Inr (best', rad', True) \<Longrightarrow>
   \<not> isLeaf (find_bvh F) child"
  by (auto simp: visit_child_def Let_def split: sum.splits if_splits)

lemma visit_children_flags:
  assumes "visit_children F i component lp slot s = Inr (best, rad, t_left, t_right)"
  shows "(t_left \<longrightarrow> \<not> isLeaf (find_bvh F) (getLeftChild (find_bvh F) (node s)))
       \<and> (t_right \<longrightarrow> \<not> isLeaf (find_bvh F) (getRightChild (find_bvh F) (node s)))"
proof (cases "float_le (distance_node s) (radii s ! slot)")
  case False
  with assms show ?thesis
    by (simp add: visit_children_def)
next
  case True
  with assms obtain bl rl where
    l: "visit_child F i component lp slot (getLeftChild (find_bvh F) (node s))
          (distance (find_bvh F) i (getLeftChild (find_bvh F) (node s)))
          (current_best s) (radii s) = Inr (bl, rl, t_left)"
    and r: "visit_child F i component lp slot (getRightChild (find_bvh F) (node s))
          (distance (find_bvh F) i (getRightChild (find_bvh F) (node s))) bl rl
          = Inr (best, rad, t_right)"
    by (auto simp: visit_children_def Let_def split: sum.splits prod.splits)
  show ?thesis
    using visit_child_flag [of F i component lp slot _ _ _ _ _ _] l r
    by (cases t_left; cases t_right) (auto dest: visit_child_flag)
qed

lemma advance_cases:
  assumes "advance bvh i s t_left t_right = Inr s'"
  shows "(\<not> t_left \<and> \<not> t_right \<and> stack s = node s' # stack s'
            \<and> length (stack_distance s) = Suc (length (stack_distance s')))
       \<or> ((t_left \<or> t_right) \<and> \<not> (t_left \<and> t_right)
            \<and> node s' = (if t_left then getLeftChild bvh (node s) else getRightChild bvh (node s))
            \<and> stack s' = stack s \<and> stack_distance s' = stack_distance s)
       \<or> (t_left \<and> t_right \<and> length (stack s) < stack_capacity
            \<and> length (stack_distance s) < stack_capacity
            \<and> (\<exists>other od. {node s', other} = {getLeftChild bvh (node s), getRightChild bvh (node s)}
                  \<and> stack s' = other # stack s \<and> stack_distance s' = od # stack_distance s))"
proof -
  consider "\<not> t_left \<and> \<not> t_right" | "(t_left \<or> t_right) \<and> \<not> (t_left \<and> t_right)" | "t_left \<and> t_right"
    by blast
  then show ?thesis
  proof cases
    case 1
    with assms show ?thesis
      by (auto simp: advance_def Let_def split: list.splits)
  next
    case 2
    with assms show ?thesis
      by (auto simp: advance_def Let_def)
  next
    case 3
    with assms show ?thesis
      by (auto simp: advance_def Let_def push_def split: if_splits)
  qed
qed

lemma advance_keeps:
  "advance bvh i s t_left t_right = Inr s' \<Longrightarrow> current_best s' = current_best s \<and> radii s' = radii s"
  by (auto simp: advance_def Let_def push_def split: if_splits list.splits sum.splits)


definition traversal_inv :: "BVH \<Rightarrow> traversal \<Rightarrow> bool" where
  "traversal_inv bvh s =
     (length (stack_distance s) = length (stack s)
      \<and> (\<exists>d. at_depth bvh (node s) d \<and> \<not> isLeaf bvh (node s) \<and> stack_inv bvh d (stack s)))"

lemma stack_inv_pop:
  assumes "stack_inv bvh d (x # st)" and "x \<noteq> SENTINEL"
  shows "\<exists>d'. at_depth bvh x d' \<and> \<not> isLeaf bvh x \<and> stack_inv bvh d' st"
proof (cases st)
  case Nil
  with assms show ?thesis by simp
next
  case (Cons y rest)
  with assms obtain d' where "at_depth bvh x d'" "\<not> isLeaf bvh x" "stack_inv bvh (d' - 1) st"
    by auto
  then show ?thesis
    using stack_inv_mono [of bvh "d' - 1" st d'] by auto
qed

lemma stack_inv_push:
  assumes "stack_inv bvh d st" and "at_depth bvh x (Suc d)" and "\<not> isLeaf bvh x"
  shows "stack_inv bvh (Suc d) (x # st)"
proof (cases st)
  case Nil
  with assms show ?thesis by simp
next
  case (Cons y rest)
  with assms show ?thesis
    by (auto intro!: exI [of _ "Suc d"])
qed

lemma traversal_step_inv:
  assumes inv: "traversal_inv (find_bvh F) s"
    and step: "traversal_step F i component lp slot s = Inr s'"
    and ns: "node s' \<noteq> SENTINEL"
  shows "traversal_inv (find_bvh F) s'"
proof -
  let ?bvh = "find_bvh F"
  from step obtain best rad t_left t_right where
    vc: "visit_children F i component lp slot s = Inr (best, rad, t_left, t_right)"
    and adv: "advance ?bvh i (s\<lparr>current_best := best, radii := rad\<rparr>) t_left t_right = Inr s'"
    by (auto simp: traversal_step_def split: sum.splits prod.splits)
  from inv obtain d where d: "at_depth ?bvh (node s) d" "\<not> isLeaf ?bvh (node s)"
      "stack_inv ?bvh d (stack s)" and len: "length (stack_distance s) = length (stack s)"
    by (auto simp: traversal_inv_def)
  have fl: "t_left \<longrightarrow> \<not> isLeaf ?bvh (getLeftChild ?bvh (node s))"
    and fr: "t_right \<longrightarrow> \<not> isLeaf ?bvh (getRightChild ?bvh (node s))"
    using visit_children_flags [OF vc] by simp_all
  have dl: "at_depth ?bvh (getLeftChild ?bvh (node s)) (Suc d)"
    and dr: "at_depth ?bvh (getRightChild ?bvh (node s)) (Suc d)"
    using d by (auto intro: at_depth.intros)
  from advance_cases [OF adv]
  consider (pop) "stack s = node s' # stack s'"
      "length (stack_distance s) = Suc (length (stack_distance s'))"
    | (down) "(t_left \<or> t_right)"
      "node s' = (if t_left then getLeftChild ?bvh (node s) else getRightChild ?bvh (node s))"
      "stack s' = stack s" "stack_distance s' = stack_distance s"
    | (both) other od where "t_left" "t_right"
      "{node s', other} = {getLeftChild ?bvh (node s), getRightChild ?bvh (node s)}"
      "stack s' = other # stack s" "stack_distance s' = od # stack_distance s"
    by auto
  then show ?thesis
  proof cases
    case pop
    then have "stack_inv ?bvh d (node s' # stack s')"
      using d by simp
    then obtain d' where "at_depth ?bvh (node s') d'" "\<not> isLeaf ?bvh (node s')"
        "stack_inv ?bvh d' (stack s')"
      using stack_inv_pop ns by blast
    moreover have "length (stack_distance s') = length (stack s')"
      using pop len by simp
    ultimately show ?thesis
      by (auto simp: traversal_inv_def)
  next
    case down
    then have "at_depth ?bvh (node s') (Suc d)" "\<not> isLeaf ?bvh (node s')"
      using dl dr fl fr by auto
    moreover have "stack_inv ?bvh (Suc d) (stack s')"
      using down d stack_inv_mono [of ?bvh d "stack s" "Suc d"] by simp
    ultimately show ?thesis
      using down len by (auto simp: traversal_inv_def)
  next
    case both
    then have n: "at_depth ?bvh (node s') (Suc d)" "\<not> isLeaf ?bvh (node s')"
      and o: "at_depth ?bvh other (Suc d)" "\<not> isLeaf ?bvh other"
      using dl dr fl fr by (auto simp: doubleton_eq_iff)
    have "stack_inv ?bvh (Suc d) (stack s')"
      using stack_inv_push [OF d(3) o] both by simp
    with n show ?thesis
      using both len by (auto simp: traversal_inv_def)
  qed
qed

lemma visited_inv:
  assumes "visited F i component lp slot s" and "\<not> isLeaf (find_bvh F) (getRoot (find_bvh F))"
  shows "traversal_inv (find_bvh F) s"
  using assms
proof (induction rule: visited.induct)
  case (visited_start best rad)
  then show ?case
    by (auto simp: traversal_inv_def traversal_start_def intro: at_depth.intros)
next
  case (visited_step s s')
  then show ?case
    using traversal_step_inv by blast
next
  case (visited_interference s rad)
  then show ?case
    by (simp add: traversal_inv_def)
qed

lemma view_at_error: "view_at v k = Inl e \<Longrightarrow> e = OutOfBounds"
  by (simp add: view_at_def split: if_splits)

lemma metric_apply_error: "metric_apply m a b d = Inl e \<Longrightarrow> e = OutOfBounds"
  by (cases m) (auto split: sum.splits dest: view_at_error)

lemma visit_child_error:
  "visit_child F i component lp slot child dc best rad = Inl e \<Longrightarrow> e = OutOfBounds"
  by (auto simp: visit_child_def Let_def split: sum.splits if_splits
      dest: view_at_error metric_apply_error)

lemma visit_children_error:
  assumes "visit_children F i component lp slot s = Inl e"
  shows "e = OutOfBounds"
proof (cases "float_le (distance_node s) (radii s ! slot)")
  case False
  with assms show ?thesis
    by (simp add: visit_children_def)
next
  case True
  with assms show ?thesis
    by (auto simp: visit_children_def Let_def split: sum.splits prod.splits
        dest: visit_child_error)
qed

lemma advance_no_overflow:
  assumes "length (stack s) < stack_capacity" and "length (stack_distance s) < stack_capacity"
  shows "advance bvh i s t_left t_right \<noteq> Inl StackOverflow"
  using assms
  by (auto simp: advance_def Let_def push_def split: list.splits)

lemma visited_stack_bound:
  assumes "depth_at_most (find_bvh F) D" and "D < stack_capacity"
    and "\<not> isLeaf (find_bvh F) (getRoot (find_bvh F))"
    and "visited F i component leaf_permutation_i slot s"
  shows "length (stack s) \<le> D + 1 \<and> length (stack s) \<le> stack_capacity
         \<and> length (stack_distance s) = length (stack s)
         \<and> traversal_step F i component leaf_permutation_i slot s \<noteq> Inl StackOverflow"
proof -
  let ?bvh = "find_bvh F"
  have inv: "traversal_inv ?bvh s"
    using visited_inv [OF assms(4) assms(3)] .
  then obtain d where d: "at_depth ?bvh (node s) d" "\<not> isLeaf ?bvh (node s)"
      "stack_inv ?bvh d (stack s)" and len: "length (stack_distance s) = length (stack s)"
    by (auto simp: traversal_inv_def)
  have "at_depth ?bvh (getLeftChild ?bvh (node s)) (Suc d)"
    using d by (auto intro: at_depth.intros)
  then have dD: "Suc d \<le> D"
    using assms(1) by (auto simp: depth_at_most_def)
  have l: "length (stack s) \<le> d + 1"
    using stack_inv_length [OF d(3)] .
  then have room: "length (stack s) < stack_capacity"
    using dD assms(2) by simp
  have "traversal_step F i component leaf_permutation_i slot s \<noteq> Inl StackOverflow"
  proof (cases "visit_children F i component leaf_permutation_i slot s")
    case (Inl e)
    then show ?thesis
      using visit_children_error [OF Inl] by (simp add: traversal_step_def)
  next
    case (Inr r)
    obtain best rad t_left t_right where r: "r = (best, rad, t_left, t_right)"
      by (cases r) auto
    show ?thesis
      using Inr r room len
        advance_no_overflow [of "s\<lparr>current_best := best, radii := rad\<rparr>" "find_bvh F" i
          t_left t_right]
      by (simp add: traversal_step_def)
  qed
  with l dD room len show ?thesis
    by simp
qed


text \<open>What one visit of a child does, by the label and the distance of the child.\<close>

lemma visit_child_result:
  assumes "visit_child F i component lp slot child dc best rad = Inr (best', rad', flag)"
    and "view_at (find_labels F) child = Inr lab"
  shows "flag = (lab \<noteq> component \<and> float_le dc (rad ! slot) \<and> \<not> isLeaf (find_bvh F) child)"
    and "\<not> (lab \<noteq> component \<and> float_le dc (rad ! slot) \<and> isLeaf (find_bvh F) child)
         \<Longrightarrow> best' = best \<and> rad' = rad"
    and "lab \<noteq> component \<Longrightarrow> float_le dc (rad ! slot) \<Longrightarrow> isLeaf (find_bvh F) child \<Longrightarrow>
         metric_apply (find_metric F) lp (getLeafPermutationIndex (find_bvh F) child) dc = Inr cd
         \<Longrightarrow> best' = (if operator_less \<lparr>source = i, target = child, weight = cd\<rparr> best
                       then \<lparr>source = i, target = child, weight = cd\<rparr> else best)
           \<and> rad' = (if operator_less \<lparr>source = i, target = child, weight = cd\<rparr> best
                      then rad[slot := atomic_min_float (rad ! slot) cd] else rad)"
  using assms
  by (auto simp: visit_child_def Let_def split: sum.splits if_splits)

lemma visit_child_improves:
  assumes "visit_child F i component lp slot child dc best rad = Inr (best', rad', flag)"
  shows "best' = best \<or> operator_less best' best"
  using assms
  by (auto simp: visit_child_def Let_def split: sum.splits if_splits)

lemma visit_child_reads_label:
  assumes "visit_child F i component lp slot child dc best rad = Inr r"
  shows "\<exists>lab. view_at (find_labels F) child = Inr lab"
  using assms
  by (auto simp: visit_child_def split: sum.splits)


text \<open>A node is scheduled when it is the next node or the entry on top of the stack.\<close>

definition scheduled :: "traversal \<Rightarrow> int \<Rightarrow> bool" where
  "scheduled s v = (node s = v \<or> (\<exists>rest. stack s = v # rest))"

lemma visit_child_compared:
  assumes v: "visit_child F i component lp slot child dc best rad = Inr (best', rad', flag)"
    and lab: "view_at (find_labels F) child = Inr lab"
    and c: "lab \<noteq> component" "float_le dc (rad ! slot)" "isLeaf (find_bvh F) child"
    and m: "metric_apply (find_metric F) lp (getLeafPermutationIndex (find_bvh F) child) dc = Inr cd"
  shows "\<not> operator_less \<lparr>source = i, target = child, weight = cd\<rparr> best'"
  using visit_child_result(3) [OF v lab c m]
  by (auto simp: operator_less_irrefl)

lemma traversal_step_pruned:
  assumes step: "traversal_step F i component lp slot s = Inr s'"
    and far: "\<not> float_le (distance_node s) (radii s ! slot)"
  shows "current_best s' = current_best s \<and> radii s' = radii s \<and> stack s = node s' # stack s'"
proof -
  have vc: "visit_children F i component lp slot s = Inr (current_best s, radii s, False, False)"
    using far by (simp add: visit_children_def)
  with step have adv: "advance (find_bvh F) i (s\<lparr>current_best := current_best s, radii := radii s\<rparr>)
      False False = Inr s'"
    by (simp add: traversal_step_def)
  show ?thesis
    using advance_cases [OF adv] advance_keeps [OF adv] by simp
qed

lemma traversal_step_expanded:
  assumes step: "traversal_step F i component lp slot s = Inr s'"
    and near: "float_le (distance_node s) (radii s ! slot)"
  shows "\<exists>best_l rad_l t_left t_right.
           visit_child F i component lp slot (getLeftChild (find_bvh F) (node s))
             (distance (find_bvh F) i (getLeftChild (find_bvh F) (node s)))
             (current_best s) (radii s) = Inr (best_l, rad_l, t_left)
         \<and> visit_child F i component lp slot (getRightChild (find_bvh F) (node s))
             (distance (find_bvh F) i (getRightChild (find_bvh F) (node s)))
             best_l rad_l = Inr (current_best s', radii s', t_right)
         \<and> (t_left \<longrightarrow> scheduled s' (getLeftChild (find_bvh F) (node s)))
         \<and> (t_right \<longrightarrow> scheduled s' (getRightChild (find_bvh F) (node s)))"
proof -
  let ?bvh = "find_bvh F"
  from step obtain best rad t_left t_right where
    vc: "visit_children F i component lp slot s = Inr (best, rad, t_left, t_right)"
    and adv: "advance ?bvh i (s\<lparr>current_best := best, radii := rad\<rparr>) t_left t_right = Inr s'"
    by (auto simp: traversal_step_def split: sum.splits prod.splits)
  from vc near obtain bl rl where
    l: "visit_child F i component lp slot (getLeftChild ?bvh (node s))
          (distance ?bvh i (getLeftChild ?bvh (node s)))
          (current_best s) (radii s) = Inr (bl, rl, t_left)"
    and r: "visit_child F i component lp slot (getRightChild ?bvh (node s))
          (distance ?bvh i (getRightChild ?bvh (node s))) bl rl
          = Inr (best, rad, t_right)"
    by (auto simp: visit_children_def Let_def split: sum.splits prod.splits)
  have keep: "current_best s' = best" "radii s' = rad"
    using advance_keeps [OF adv] by simp_all
  have "t_left \<longrightarrow> scheduled s' (getLeftChild ?bvh (node s))"
    using advance_cases [OF adv] by (auto simp: scheduled_def doubleton_eq_iff)
  moreover have "t_right \<longrightarrow> scheduled s' (getRightChild ?bvh (node s))"
    using advance_cases [OF adv] by (auto simp: scheduled_def doubleton_eq_iff)
  ultimately show ?thesis
    using l r keep by blast
qed


text \<open>
  C5. One iteration of the traversal. A node farther than the radius is not expanded: the
  iteration pops, and changes neither the best edge nor the radii. A node within the
  radius (\<open>\<le>\<close>) is expanded: both children are visited, the right one with the radius the
  left one may have lowered. A child of another label is scheduled exactly when it is
  within the radius and not a leaf, and it is then the next node or on top of the stack;
  when it is a leaf within the radius, its candidate edge was compared, so the best edge
  after the iteration is not greater than the candidate. A child of the same label or
  beyond the radius changes nothing. A radius that is a number is within itself.
\<close>

theorem traversal_radius_inclusive:
  assumes step: "traversal_step F i component lp slot s = Inr s'"
  shows "(\<not> float_le (distance_node s) (radii s ! slot) \<longrightarrow>
            current_best s' = current_best s \<and> radii s' = radii s
            \<and> stack s = node s' # stack s')
       \<and> (float_le (distance_node s) (radii s ! slot) \<longrightarrow>
            (\<exists>lab_l lab_r best_l rad_l t_left t_right.
               view_at (find_labels F) (getLeftChild (find_bvh F) (node s)) = Inr lab_l
             \<and> view_at (find_labels F) (getRightChild (find_bvh F) (node s)) = Inr lab_r
             \<and> visit_child F i component lp slot (getLeftChild (find_bvh F) (node s))
                  (distance (find_bvh F) i (getLeftChild (find_bvh F) (node s)))
                  (current_best s) (radii s) = Inr (best_l, rad_l, t_left)
             \<and> visit_child F i component lp slot (getRightChild (find_bvh F) (node s))
                  (distance (find_bvh F) i (getRightChild (find_bvh F) (node s)))
                  best_l rad_l = Inr (current_best s', radii s', t_right)
             \<and> (t_left \<longleftrightarrow> lab_l \<noteq> component
                   \<and> float_le (distance (find_bvh F) i (getLeftChild (find_bvh F) (node s)))
                        (radii s ! slot)
                   \<and> \<not> isLeaf (find_bvh F) (getLeftChild (find_bvh F) (node s)))
             \<and> (t_right \<longleftrightarrow> lab_r \<noteq> component
                   \<and> float_le (distance (find_bvh F) i (getRightChild (find_bvh F) (node s)))
                        (rad_l ! slot)
                   \<and> \<not> isLeaf (find_bvh F) (getRightChild (find_bvh F) (node s)))
             \<and> (t_left \<longrightarrow> scheduled s' (getLeftChild (find_bvh F) (node s)))
             \<and> (t_right \<longrightarrow> scheduled s' (getRightChild (find_bvh F) (node s)))
             \<and> (lab_l \<noteq> component
                   \<and> float_le (distance (find_bvh F) i (getLeftChild (find_bvh F) (node s)))
                        (radii s ! slot)
                   \<and> isLeaf (find_bvh F) (getLeftChild (find_bvh F) (node s)) \<longrightarrow>
                 (\<forall>cd. metric_apply (find_metric F) lp
                         (getLeafPermutationIndex (find_bvh F) (getLeftChild (find_bvh F) (node s)))
                         (distance (find_bvh F) i (getLeftChild (find_bvh F) (node s))) = Inr cd
                    \<longrightarrow> \<not> operator_less
                           \<lparr>source = i, target = getLeftChild (find_bvh F) (node s), weight = cd\<rparr>
                           (current_best s')))
             \<and> (lab_r \<noteq> component
                   \<and> float_le (distance (find_bvh F) i (getRightChild (find_bvh F) (node s)))
                        (rad_l ! slot)
                   \<and> isLeaf (find_bvh F) (getRightChild (find_bvh F) (node s)) \<longrightarrow>
                 (\<forall>cd. metric_apply (find_metric F) lp
                         (getLeafPermutationIndex (find_bvh F) (getRightChild (find_bvh F) (node s)))
                         (distance (find_bvh F) i (getRightChild (find_bvh F) (node s))) = Inr cd
                    \<longrightarrow> \<not> operator_less
                           \<lparr>source = i, target = getRightChild (find_bvh F) (node s), weight = cd\<rparr>
                           (current_best s')))
             \<and> (\<not> (lab_l \<noteq> component
                   \<and> float_le (distance (find_bvh F) i (getLeftChild (find_bvh F) (node s)))
                        (radii s ! slot))
                 \<longrightarrow> best_l = current_best s \<and> rad_l = radii s)
             \<and> (\<not> (lab_r \<noteq> component
                   \<and> float_le (distance (find_bvh F) i (getRightChild (find_bvh F) (node s)))
                        (rad_l ! slot))
                 \<longrightarrow> current_best s' = best_l \<and> radii s' = rad_l)))
       \<and> (radii s ! slot \<noteq> NaN \<longrightarrow> float_le (radii s ! slot) (radii s ! slot))"
proof (intro conjI impI)
  assume "\<not> float_le (distance_node s) (radii s ! slot)"
  then show "current_best s' = current_best s" "radii s' = radii s"
    "stack s = node s' # stack s'"
    using traversal_step_pruned [OF step] by simp_all
next
  assume "radii s ! slot \<noteq> NaN"
  then show "float_le (radii s ! slot) (radii s ! slot)"
    by (rule float_le_refl)
next
  let ?bvh = "find_bvh F"
  let ?L = "getLeftChild ?bvh (node s)"
  let ?R = "getRightChild ?bvh (node s)"
  let ?dL = "distance ?bvh i ?L"
  let ?dR = "distance ?bvh i ?R"
  assume near: "float_le (distance_node s) (radii s ! slot)"
  obtain best_l rad_l t_left t_right where
    l: "visit_child F i component lp slot ?L ?dL (current_best s) (radii s)
          = Inr (best_l, rad_l, t_left)"
    and r: "visit_child F i component lp slot ?R ?dR best_l rad_l
          = Inr (current_best s', radii s', t_right)"
    and sl: "t_left \<longrightarrow> scheduled s' ?L" and sr: "t_right \<longrightarrow> scheduled s' ?R"
    using traversal_step_expanded [OF step near] by blast
  obtain lab_l where ll: "view_at (find_labels F) ?L = Inr lab_l"
    using visit_child_reads_label [OF l] by blast
  obtain lab_r where lr: "view_at (find_labels F) ?R = Inr lab_r"
    using visit_child_reads_label [OF r] by blast
  have cmp_l: "\<forall>cd. metric_apply (find_metric F) lp (getLeafPermutationIndex ?bvh ?L) ?dL = Inr cd
                 \<longrightarrow> \<not> operator_less \<lparr>source = i, target = ?L, weight = cd\<rparr> (current_best s')"
    if c: "lab_l \<noteq> component \<and> float_le ?dL (radii s ! slot) \<and> isLeaf ?bvh ?L"
  proof (intro allI impI)
    fix cd
    assume m: "metric_apply (find_metric F) lp (getLeafPermutationIndex ?bvh ?L) ?dL = Inr cd"
    have n1: "\<not> operator_less \<lparr>source = i, target = ?L, weight = cd\<rparr> best_l"
      using visit_child_compared [OF l ll _ _ _ m] c by simp
    from visit_child_improves [OF r]
    show "\<not> operator_less \<lparr>source = i, target = ?L, weight = cd\<rparr> (current_best s')"
    proof
      assume "current_best s' = best_l"
      with n1 show ?thesis by simp
    next
      assume "operator_less (current_best s') best_l"
      with n1 show ?thesis
        using operator_less_trans by blast
    qed
  qed
  have cmp_r: "\<forall>cd. metric_apply (find_metric F) lp (getLeafPermutationIndex ?bvh ?R) ?dR = Inr cd
                 \<longrightarrow> \<not> operator_less \<lparr>source = i, target = ?R, weight = cd\<rparr> (current_best s')"
    if c: "lab_r \<noteq> component \<and> float_le ?dR (rad_l ! slot) \<and> isLeaf ?bvh ?R"
    using visit_child_compared [OF r lr] c by blast
  have skip_l: "best_l = current_best s \<and> rad_l = radii s"
    if "\<not> (lab_l \<noteq> component \<and> float_le ?dL (radii s ! slot))"
    using visit_child_result(2) [OF l ll] that by blast
  have skip_r: "current_best s' = best_l \<and> radii s' = rad_l"
    if "\<not> (lab_r \<noteq> component \<and> float_le ?dR (rad_l ! slot))"
    using visit_child_result(2) [OF r lr] that by blast
  show "\<exists>lab_l lab_r best_l rad_l t_left t_right.
               view_at (find_labels F) ?L = Inr lab_l
             \<and> view_at (find_labels F) ?R = Inr lab_r
             \<and> visit_child F i component lp slot ?L ?dL (current_best s) (radii s)
                 = Inr (best_l, rad_l, t_left)
             \<and> visit_child F i component lp slot ?R ?dR best_l rad_l
                 = Inr (current_best s', radii s', t_right)
             \<and> (t_left \<longleftrightarrow> lab_l \<noteq> component \<and> float_le ?dL (radii s ! slot)
                   \<and> \<not> isLeaf ?bvh ?L)
             \<and> (t_right \<longleftrightarrow> lab_r \<noteq> component \<and> float_le ?dR (rad_l ! slot)
                   \<and> \<not> isLeaf ?bvh ?R)
             \<and> (t_left \<longrightarrow> scheduled s' ?L)
             \<and> (t_right \<longrightarrow> scheduled s' ?R)
             \<and> (lab_l \<noteq> component \<and> float_le ?dL (radii s ! slot) \<and> isLeaf ?bvh ?L \<longrightarrow>
                 (\<forall>cd. metric_apply (find_metric F) lp (getLeafPermutationIndex ?bvh ?L) ?dL = Inr cd
                    \<longrightarrow> \<not> operator_less \<lparr>source = i, target = ?L, weight = cd\<rparr>
                           (current_best s')))
             \<and> (lab_r \<noteq> component \<and> float_le ?dR (rad_l ! slot) \<and> isLeaf ?bvh ?R \<longrightarrow>
                 (\<forall>cd. metric_apply (find_metric F) lp (getLeafPermutationIndex ?bvh ?R) ?dR = Inr cd
                    \<longrightarrow> \<not> operator_less \<lparr>source = i, target = ?R, weight = cd\<rparr>
                           (current_best s')))
             \<and> (\<not> (lab_l \<noteq> component \<and> float_le ?dL (radii s ! slot))
                 \<longrightarrow> best_l = current_best s \<and> rad_l = radii s)
             \<and> (\<not> (lab_r \<noteq> component \<and> float_le ?dR (rad_l ! slot))
                 \<longrightarrow> current_best s' = best_l \<and> radii s' = rad_l)"
    apply (rule exI [of _ lab_l], rule exI [of _ lab_r], rule exI [of _ best_l])
    apply (rule exI [of _ rad_l], rule exI [of _ t_left], rule exI [of _ t_right])
    using ll lr l r sl sr cmp_l cmp_r skip_l skip_r
      visit_child_result(1) [OF l ll] visit_child_result(1) [OF r lr]
    apply (intro conjI)
    apply blast+
    done
qed


text \<open>
  An example hierarchy for the witnesses: the complete binary tree over \<open>n\<close> leaves (\<open>n\<close>
  a power of two) in heap order, the children of node \<open>v\<close> being \<open>2v + 1\<close> and \<open>2v + 2\<close>,
  with distance \<open>|i - j|\<close> between the volumes of the nodes \<open>i\<close> and \<open>j\<close>.
\<close>

definition example_bvh :: "nat \<Rightarrow> BVH" where
  "example_bvh n =
     \<lparr>bvh_size = n, getRoot = 0,
      getLeftChild = (\<lambda>v. 2 * v + 1), getRightChild = (\<lambda>v. 2 * v + 2),
      isLeaf = (\<lambda>v. int n - 1 \<le> v),
      getLeafPermutationIndex = (\<lambda>v. v - (int n - 1)),
      distance = (\<lambda>i j. Finite (of_int \<bar>i - j\<bar>))\<rparr>"

definition example_find :: "nat \<Rightarrow> int list \<Rightarrow> float32 list \<Rightarrow> FindComponentNearestNeighbors" where
  "example_find n labs rad =
     \<lparr>find_bvh = example_bvh n, find_labels = labs,
      find_edges = replicate n \<lparr>source = -1, target = -1, weight = infinity\<rparr>,
      find_metric = Euclidean, find_radii = rad\<rparr>"

theorem traversal_radius_inclusive_witness:
  "traversal_step (example_find 2 [-1, 1, 2] [Finite 1, Finite 1]) 1 1 0 0
     (traversal_start (example_bvh 2) \<lparr>source = 1, target = -1, weight = infinity\<rparr>
        [Finite 1, Finite 1])
   = Inr \<lparr>node = -1, distance_node = Finite 0, stack = [], stack_distance = [],
          current_best = \<lparr>source = 1, target = 2, weight = Finite 1\<rparr>,
          radii = [Finite 1, Finite 1]\<rparr>
   \<and> float_le (distance (example_bvh 2) 1 2) ([Finite 1, Finite 1] ! 0)
   \<and> \<not> operator_less \<lparr>source = 1, target = 2, weight = Finite 1\<rparr>
         \<lparr>source = 1, target = 2, weight = Finite 1\<rparr>"
proof -
  let ?F = "example_find 2 [-1, 1, 2] [Finite 1, Finite 1]"
  let ?s = "traversal_start (example_bvh 2) \<lparr>source = 1, target = -1, weight = infinity\<rparr>
        [Finite 1, Finite 1]"
  let ?s' = "\<lparr>node = -1, distance_node = Finite 0, stack = [], stack_distance = [],
          current_best = \<lparr>source = 1, target = 2, weight = Finite 1\<rparr>,
          radii = [Finite 1, Finite 1]\<rparr>"
  have step: "traversal_step ?F 1 1 0 0 ?s = Inr ?s'"
    by (simp add: traversal_step_def visit_children_def visit_child_def advance_def
        example_find_def example_bvh_def traversal_start_def view_at_def float_le_def
        operator_less_def atomic_min_float_def infinity_def SENTINEL_def Let_def)
  have near: "float_le (distance (example_bvh 2) 1 2) ([Finite 1, Finite 1] ! 0)"
    by (simp add: example_bvh_def float_le_def)
  have "\<not> operator_less \<lparr>source = 1, target = 2, weight = Finite 1\<rparr> (current_best ?s')"
    using traversal_radius_inclusive [OF step] near
    by (simp add: example_find_def example_bvh_def traversal_start_def view_at_def float_le_def
        visit_child_def operator_less_def infinity_def Let_def)
  with step near show ?thesis
    by simp
qed


lemma traversal_loop_no_overflow:
  assumes "traversal_loop F i component lp slot s = Some r"
  shows "depth_at_most (find_bvh F) D \<and> D < stack_capacity \<and> traversal_inv (find_bvh F) s
         \<longrightarrow> r \<noteq> Inl StackOverflow"
proof (rule traversal_loop.raw_induct
    [where P = "\<lambda>F i component lp slot s r.
         depth_at_most (find_bvh F) D \<and> D < stack_capacity \<and> traversal_inv (find_bvh F) s
         \<longrightarrow> r \<noteq> Inl StackOverflow", OF _ assms])
  fix self F i component lp slot s r
  assume IH: "\<And>F i component lp slot s r. self F i component lp slot s = Some r \<Longrightarrow>
           depth_at_most (find_bvh F) D \<and> D < stack_capacity \<and> traversal_inv (find_bvh F) s
           \<longrightarrow> r \<noteq> Inl StackOverflow"
    and body: "(case traversal_step F i component lp slot s of
                  Inl e \<Rightarrow> Some (Inl e)
                | Inr s' \<Rightarrow> if node s' \<noteq> SENTINEL then self F i component lp slot s'
                            else Some (Inr s')) = Some r"
  show "depth_at_most (find_bvh F) D \<and> D < stack_capacity \<and> traversal_inv (find_bvh F) s
        \<longrightarrow> r \<noteq> Inl StackOverflow"
  proof
    assume a: "depth_at_most (find_bvh F) D \<and> D < stack_capacity \<and> traversal_inv (find_bvh F) s"
    let ?bvh = "find_bvh F"
    from a obtain d where d: "at_depth ?bvh (node s) d" "\<not> isLeaf ?bvh (node s)"
        "stack_inv ?bvh d (stack s)" and len: "length (stack_distance s) = length (stack s)"
      by (auto simp: traversal_inv_def)
    have "at_depth ?bvh (getLeftChild ?bvh (node s)) (Suc d)"
      using d by (auto intro: at_depth.intros)
    then have "Suc d \<le> D"
      using a by (auto simp: depth_at_most_def)
    then have room: "length (stack s) < stack_capacity"
      using stack_inv_length [OF d(3)] a by simp
    show "r \<noteq> Inl StackOverflow"
    proof (cases "traversal_step F i component lp slot s")
      case (Inl e)
      have "e = OutOfBounds"
      proof (cases "visit_children F i component lp slot s")
        case vl: (Inl e')
        with Inl show ?thesis
          using visit_children_error [OF vl] by (simp add: traversal_step_def)
      next
        case (Inr q)
        obtain best rad t_left t_right where q: "q = (best, rad, t_left, t_right)"
          by (cases q) auto
        have "advance ?bvh i (s\<lparr>current_best := best, radii := rad\<rparr>) t_left t_right = Inl e"
          using Inl Inr q by (simp add: traversal_step_def)
        then show ?thesis
          using room len
          by (cases e) (auto simp: advance_def Let_def push_def split: list.splits if_splits)
      qed
      with body Inl show ?thesis by auto
    next
      case (Inr s')
      show ?thesis
      proof (cases "node s' \<noteq> SENTINEL")
        case True
        then have "traversal_inv ?bvh s'"
          using traversal_step_inv [OF _ Inr] a by simp
        moreover have "self F i component lp slot s' = Some r"
          using body Inr True by simp
        ultimately show ?thesis
          using IH a by blast
      next
        case False
        with body Inr show ?thesis by auto
      qed
    qed
  qed
qed


text \<open>
  C8. When the root is not a leaf and the tree has depth at most \<open>D < 64\<close>, every state
  in which an iteration starts has at most \<open>D + 1\<close> entries on either stack, the iteration
  does not overflow a stack, and neither does the loop as a whole.
\<close>

theorem traversal_stack_within_capacity:
  assumes "depth_at_most (find_bvh F) D" and "D < stack_capacity"
    and "\<not> isLeaf (find_bvh F) (getRoot (find_bvh F))"
  shows "(visited F i component leaf_permutation_i slot s \<longrightarrow>
            length (stack s) \<le> D + 1 \<and> length (stack s) \<le> stack_capacity
            \<and> length (stack_distance s) = length (stack s)
            \<and> traversal_step F i component leaf_permutation_i slot s \<noteq> Inl StackOverflow)
       \<and> traversal_loop F i component leaf_permutation_i slot
            (traversal_start (find_bvh F) best rad) \<noteq> Some (Inl StackOverflow)"
proof (rule conjI)
  show "visited F i component leaf_permutation_i slot s \<longrightarrow>
            length (stack s) \<le> D + 1 \<and> length (stack s) \<le> stack_capacity
            \<and> length (stack_distance s) = length (stack s)
            \<and> traversal_step F i component leaf_permutation_i slot s \<noteq> Inl StackOverflow"
    using visited_stack_bound [OF assms] by blast
next
  have "traversal_inv (find_bvh F) (traversal_start (find_bvh F) best rad)"
    using visited_inv [OF visited_start assms(3)] .
  then show "traversal_loop F i component leaf_permutation_i slot
            (traversal_start (find_bvh F) best rad) \<noteq> Some (Inl StackOverflow)"
    using traversal_loop_no_overflow [of F i component leaf_permutation_i slot
        "traversal_start (find_bvh F) best rad" "Inl StackOverflow" D] assms(1,2)
    by blast
qed

lemma example_bvh_4_depth:
  "at_depth (example_bvh 4) v d \<Longrightarrow>
   (d = 0 \<and> v = 0) \<or> (d = 1 \<and> (v = 1 \<or> v = 2)) \<or> (d = 2 \<and> 3 \<le> v)"
  by (induction rule: at_depth.induct) (auto simp: example_bvh_def)

theorem traversal_stack_within_capacity_witness:
  "depth_at_most (example_bvh 4) 2 \<and> 2 < stack_capacity
   \<and> \<not> isLeaf (example_bvh 4) (getRoot (example_bvh 4))
   \<and> visited (example_find 4 [-1, -1, -1, 3, 4, 5, 6] [PosInf, PosInf, PosInf, PosInf]) 3 3 0 0
       \<lparr>node = 2, distance_node = Finite 1, stack = [1, -1],
        stack_distance = [Finite 2, Finite 0],
        current_best = \<lparr>source = 3, target = -1, weight = infinity\<rparr>,
        radii = [PosInf, PosInf, PosInf, PosInf]\<rparr>
   \<and> traversal_step (example_find 4 [-1, -1, -1, 3, 4, 5, 6] [PosInf, PosInf, PosInf, PosInf])
        3 3 0 0
       \<lparr>node = 2, distance_node = Finite 1, stack = [1, -1],
        stack_distance = [Finite 2, Finite 0],
        current_best = \<lparr>source = 3, target = -1, weight = infinity\<rparr>,
        radii = [PosInf, PosInf, PosInf, PosInf]\<rparr> \<noteq> Inl StackOverflow"
proof -
  let ?F = "example_find 4 [-1, -1, -1, 3, 4, 5, 6] [PosInf, PosInf, PosInf, PosInf]"
  let ?s0 = "traversal_start (find_bvh ?F) \<lparr>source = 3, target = -1, weight = infinity\<rparr>
        [PosInf, PosInf, PosInf, PosInf]"
  let ?s1 = "\<lparr>node = 2, distance_node = Finite 1, stack = [1, -1],
        stack_distance = [Finite 2, Finite 0],
        current_best = \<lparr>source = 3, target = -1, weight = infinity\<rparr>,
        radii = [PosInf, PosInf, PosInf, PosInf]\<rparr>"
  have depth: "depth_at_most (find_bvh ?F) 2"
    unfolding depth_at_most_def example_find_def
    using example_bvh_4_depth by fastforce
  have cap: "2 < stack_capacity"
    by (simp add: stack_capacity_def)
  have root: "\<not> isLeaf (find_bvh ?F) (getRoot (find_bvh ?F))"
    by (simp add: example_find_def example_bvh_def)
  have step: "traversal_step ?F 3 3 0 0 ?s0 = Inr ?s1"
    by (simp add: traversal_step_def visit_children_def visit_child_def advance_def push_def
        example_find_def example_bvh_def traversal_start_def view_at_def float_le_def
        stack_capacity_def SENTINEL_def Let_def)
  have vis: "visited ?F 3 3 0 0 ?s1"
    by (rule visited_step [OF visited_start step]) (simp add: SENTINEL_def)
  have "traversal_step ?F 3 3 0 0 ?s1 \<noteq> Inl StackOverflow"
    using traversal_stack_within_capacity [OF depth cap root, of 3 3 0 0 ?s1] vis
    by blast
  with depth cap root vis show ?thesis
    by (simp add: example_find_def)
qed

section \<open>The kernel that merges components and emits edges\<close>

text \<open>
  \<^verbatim>\<open>Kokkos::parallel_for\<close> for a kernel whose work items may not return: the schedule
  stops at the first work item that fails or diverges.
\<close>

fun parallel_for_partial ::
  "int list \<Rightarrow> (int \<Rightarrow> 's \<Rightarrow> (error + 's) option) \<Rightarrow> 's \<Rightarrow> (error + 's) option" where
  "parallel_for_partial [] body s = Some (Inr s)"
| "parallel_for_partial (i # is) body s =
     (case body i s of
        None \<Rightarrow> None
      | Some (Inl e) \<Rightarrow> Some (Inl e)
      | Some (Inr s') \<Rightarrow> parallel_for_partial is body s')"

text \<open>
  \<^verbatim>\<open>UpdateComponentsAndEdges::operator()\<close>. The work item of leaf \<open>i\<close> rewrites the label
  of \<open>i\<close> in the array every work item reads, and appends the edge of its component when
  \<open>i\<close> is the representative and is not the final component.
  \<^verbatim>\<open>atomic_fetch_inc\<close> returns the count and adds one to it.
\<close>

definition update_operator_call ::
  "int \<Rightarrow> UpdateComponentsAndEdges \<Rightarrow> (error + UpdateComponentsAndEdges) option" where
  "update_operator_call i f =
     (case view_at (labels f) i of
        Inl e \<Rightarrow> Some (Inl e)
      | Inr component \<Rightarrow>
      (case computeFinalComponent f component of
        None \<Rightarrow> None
      | Some (Inl e) \<Rightarrow> Some (Inl e)
      | Some (Inr final_component) \<Rightarrow>
      (case view_set (labels f) i final_component of
        Inl e \<Rightarrow> Some (Inl e)
      | Inr labels' \<Rightarrow>
          let f = f\<lparr>labels := labels'\<rparr> in
          if i \<noteq> component then Some (Inr f)
          else
            let n = int (length (out_edges f)) in
            if i \<noteq> final_component then
              (case view_at (out_edges f) (i - n + 1) of
                 Inl e \<Rightarrow> Some (Inl e)
               | Inr edge \<Rightarrow>
                   let back = num_edges f;
                       f = f\<lparr>num_edges := back + 1\<rparr>
                   in (case view_set (edges f) back edge of
                         Inl e \<Rightarrow> Some (Inl e)
                       | Inr edges' \<Rightarrow> Some (Inr (f\<lparr>edges := edges'\<rparr>))))
            else Some (Inr f))))"

text \<open>
  The constructor of the functor: its two assertions, on extents computed in
  \<^verbatim>\<open>size_t\<close>, and the kernel over the leaves \<^verbatim>\<open>[n - 1, 2n - 1)\<close>, whose order of work
  items is the schedule.
\<close>

definition size_t :: "int \<Rightarrow> int" where
  "size_t x = x mod 2 ^ 64"


text \<open>
  The rule on a successor function that, at some arguments, already gives the final
  component instead of the successor, as the labels do while the kernel rewrites them: the
  rule then still gives its old value or the final component.
\<close>

lemma break_cycle_fixed_iff:
  "break_cycle g x = x \<longleftrightarrow> g (g x) = x \<and> x \<le> g x"
  by (auto simp: break_cycle_def min_def)

lemma break_cycle_relabel:
  assumes closed: "\<forall>x\<in>S. g x \<in> S"
    and F_in: "\<forall>x\<in>S. F x \<in> S"
    and F_fixed: "\<forall>x\<in>S. break_cycle g (F x) = F x"
    and F_stay: "\<forall>x\<in>S. break_cycle g x = x \<longrightarrow> F x = x"
    and F_step: "\<forall>x\<in>S. break_cycle g x \<noteq> x \<longrightarrow> F (break_cycle g x) = F x"
    and h0: "\<forall>x\<in>S. h x = g x \<or> h x = F (g x)"
    and x: "x \<in> S"
  shows "break_cycle h x = break_cycle g x \<or> break_cycle h x = F x"
proof -
  have F_g: "F (g y) = F y" if y: "y \<in> S" for y
  proof (cases "break_cycle g y = y")
    case False
    then have "break_cycle g y = g y"
      using break_cycle_cases [of g y] by simp
    with False F_step y show ?thesis by metis
  next
    case True
    then have yy: "g (g y) = y" "y \<le> g y" "F y = y"
      using F_stay y by (auto simp: break_cycle_fixed_iff)
    show ?thesis
    proof (cases "g y = y")
      case True
      then show ?thesis by simp
    next
      case False
      have "break_cycle g (g y) = y"
        using yy by (simp add: break_cycle_def min_def)
      then show ?thesis
        using F_step closed y False by metis
    qed
  qed
  have h: "\<forall>x\<in>S. h x = g x \<or> h x = F x"
    using h0 F_g by metis
  have F_F: "F (F y) = F y" if y: "y \<in> S" for y
    using F_fixed F_stay F_in y by metis
  have Fle: "F y \<le> g (F y)" "g (g (F y)) = F y" if y: "y \<in> S" for y
    using F_fixed y by (auto simp: break_cycle_fixed_iff)
  from h x consider (a) "h x = g x" | (b) "h x = F x"
    by blast
  then show ?thesis
  proof cases
    case a
    have gx: "g x \<in> S" using closed x by blast
    from h gx consider (aa) "h (g x) = g (g x)" | (ab) "h (g x) = F x"
      using F_g [OF x] by metis
    then show ?thesis
    proof cases
      case aa
      with a show ?thesis by (simp add: break_cycle_def)
    next
      case ab
      show ?thesis
      proof (cases "F x = x")
        case True
        then have "break_cycle g x = x"
          using F_fixed x by metis
        then have "g (g x) = x" "x \<le> g x"
          by (auto simp: break_cycle_fixed_iff)
        with a ab True show ?thesis
          by (simp add: break_cycle_def min_def)
      next
        case False
        then have "break_cycle g x \<noteq> x"
          using F_stay x by blast
        then have "break_cycle g x = g x"
          using break_cycle_cases [of g x] by simp
        with a ab False show ?thesis
          by (simp add: break_cycle_def)
      qed
    qed
  next
    case b
    have Fx: "F x \<in> S" using F_in x by blast
    show ?thesis
    proof (cases "F x = x")
      case True
      with b show ?thesis
        by (simp add: break_cycle_def)
    next
      case False
      from h Fx consider (ba) "h (F x) = g (F x)" | (bb) "h (F x) = F x"
        using F_F [OF x] by metis
      then show ?thesis
      proof cases
        case ba
        show ?thesis
        proof (cases "g (F x) = x")
          case True
          then have "F x \<le> x" using Fle(1) [OF x] by simp
          with b ba True show ?thesis
            by (simp add: break_cycle_def min_def)
        next
          case ne: False
          with b ba show ?thesis
            by (simp add: break_cycle_def)
        qed
      next
        case bb
        with b False show ?thesis
          by (simp add: break_cycle_def)
      qed
    qed
  qed
qed


text \<open>
  The final component of \<open>c\<close> in a given state, and the state in which a round of the
  algorithm starts the kernel: the extents fit, the label of every leaf is a leaf that is
  its own label (the representative of the component), the edge of every component points
  to a leaf, the cycles of the graph have length at most two, and the buffer has room for
  one edge per component but one.
\<close>

definition final_component :: "UpdateComponentsAndEdges \<Rightarrow> int \<Rightarrow> int" where
  "final_component f c = (case computeFinalComponent f c of Some (Inr r) \<Rightarrow> r | _ \<Rightarrow> c)"

definition leaf :: "UpdateComponentsAndEdges \<Rightarrow> int \<Rightarrow> bool" where
  "leaf f i = (int (length (out_edges f)) - 1 \<le> i \<and> i \<le> 2 * int (length (out_edges f)) - 2)"

definition round_ready :: "UpdateComponentsAndEdges \<Rightarrow> bool" where
  "round_ready f =
     (let n = int (length (out_edges f)) in
      1 \<le> n \<and> int (length (labels f)) = 2 * n - 1 \<and> int (length (edges f)) = n - 1
      \<and> (\<forall>i. leaf f i \<longrightarrow> leaf f (labels f ! nat i)
                \<and> labels f ! nat (labels f ! nat i) = labels f ! nat i)
      \<and> (\<forall>c. leaf f c \<and> labels f ! nat c = c \<longrightarrow>
                leaf f (target (out_edges f ! nat (c - n + 1))))
      \<and> cycles_have_length_two f (components f)
      \<and> 0 \<le> num_edges f \<and> num_edges f + int (card (components f)) \<le> n)"

lemma components_leaf_labels:
  assumes "int (length (labels f)) = 2 * int (length (out_edges f)) - 1"
    and "1 \<le> length (out_edges f)"
  shows "components f = {labels f ! nat i | i. leaf f i}"
proof -
  let ?n = "length (out_edges f)"
  have len: "length (labels f) = 2 * ?n - 1"
    using assms by linarith
  have "components f = {labels f ! j | j. ?n - 1 \<le> j \<and> j < length (labels f)}"
  proof (intro equalityI subsetI)
    fix c assume "c \<in> components f"
    then obtain k where k: "k < length (drop (?n - 1) (labels f))"
        "c = drop (?n - 1) (labels f) ! k"
      by (auto simp: components_def in_set_conv_nth)
    then have "c = labels f ! (?n - 1 + k)" "?n - 1 + k < length (labels f)"
      by simp_all
    then show "c \<in> {labels f ! j | j. ?n - 1 \<le> j \<and> j < length (labels f)}"
      by (intro CollectI exI [of _ "?n - 1 + k"]) simp
  next
    fix c assume "c \<in> {labels f ! j | j. ?n - 1 \<le> j \<and> j < length (labels f)}"
    then obtain j where j: "c = labels f ! j" "?n - 1 \<le> j" "j < length (labels f)"
      by blast
    then have "c = drop (?n - 1) (labels f) ! (j - (?n - 1))"
        "j - (?n - 1) < length (drop (?n - 1) (labels f))"
      by simp_all
    then show "c \<in> components f"
      unfolding components_def in_set_conv_nth by blast
  qed
  also have "\<dots> = {labels f ! nat i | i. leaf f i}"
  proof (intro equalityI subsetI)
    fix c assume "c \<in> {labels f ! j | j. ?n - 1 \<le> j \<and> j < length (labels f)}"
    then obtain j where j: "c = labels f ! j" "?n - 1 \<le> j" "j < length (labels f)"
      by blast
    then have "leaf f (int j)"
      using len assms(2) by (auto simp: leaf_def)
    with j show "c \<in> {labels f ! nat i | i. leaf f i}"
      by (intro CollectI exI [of _ "int j"]) simp
  next
    fix c assume "c \<in> {labels f ! nat i | i. leaf f i}"
    then obtain i where i: "c = labels f ! nat i" "leaf f i"
      by blast
    then have "?n - 1 \<le> nat i" "nat i < length (labels f)"
      using len assms(2) by (auto simp: leaf_def)
    with i show "c \<in> {labels f ! j | j. ?n - 1 \<le> j \<and> j < length (labels f)}"
      by blast
  qed
  finally show ?thesis .
qed

lemma round_ready_components:
  assumes "round_ready f"
  shows "components f = {c. leaf f c \<and> labels f ! nat c = c}"
proof -
  have c: "components f = {labels f ! nat i | i. leaf f i}"
    using assms components_leaf_labels [of f] by (auto simp: round_ready_def Let_def)
  have rep: "\<And>i. leaf f i \<Longrightarrow> leaf f (labels f ! nat i)
                \<and> labels f ! nat (labels f ! nat i) = labels f ! nat i"
    using assms by (auto simp: round_ready_def Let_def)
  show ?thesis
    unfolding c
  proof (intro equalityI subsetI)
    fix c assume "c \<in> {labels f ! nat i | i. leaf f i}"
    then show "c \<in> {c. leaf f c \<and> labels f ! nat c = c}"
      using rep by auto
  next
    fix c assume "c \<in> {c. leaf f c \<and> labels f ! nat c = c}"
    then have "leaf f c" "c = labels f ! nat c" by simp_all
    then show "c \<in> {labels f ! nat i | i. leaf f i}"
      by blast
  qed
qed

lemma leaf_label_component:
  assumes "round_ready f" and "leaf f i"
  shows "labels f ! nat i \<in> components f"
  using assms round_ready_components [OF assms(1)]
  by (auto simp: round_ready_def Let_def)

lemma leaf_view_at:
  assumes "int (length l) = 2 * int (length (out_edges f)) - 1" and "leaf f i"
  shows "view_at l i = Inr (l ! nat i)"
  using assms by (auto simp: view_at_def leaf_def)

lemma leaf_slot:
  assumes "leaf f c"
  shows "view_at (out_edges f) (c - int (length (out_edges f)) + 1)
         = Inr (out_edges f ! nat (c - int (length (out_edges f)) + 1))"
  using assms by (auto simp: view_at_def leaf_def)

lemma round_ready_spec_next:
  assumes "round_ready f" and "c \<in> components f"
  shows "spec_next f c
         = Inr (labels f ! nat (target (out_edges f ! nat (c - int (length (out_edges f)) + 1))))"
    and "leaf f (target (out_edges f ! nat (c - int (length (out_edges f)) + 1)))"
proof -
  let ?n = "int (length (out_edges f))"
  have c: "leaf f c" "labels f ! nat c = c"
    using assms round_ready_components by auto
  have len: "int (length (labels f)) = 2 * ?n - 1"
    using assms(1) by (simp add: round_ready_def Let_def)
  show t: "leaf f (target (out_edges f ! nat (c - ?n + 1)))"
    using assms(1) c by (simp add: round_ready_def Let_def)
  show "spec_next f c = Inr (labels f ! nat (target (out_edges f ! nat (c - ?n + 1))))"
    using leaf_slot [OF c(1)] leaf_view_at [OF len t]
    by (simp add: spec_next_def)
qed

lemma round_ready_closed:
  assumes "round_ready f"
  shows "graph_closed f (components f)"
  unfolding graph_closed_def
  using round_ready_spec_next [OF assms] leaf_label_component [OF assms]
  by blast


lemma final_component_props:
  assumes "round_ready f" and "c \<in> components f"
  shows "computeFinalComponent f c = Some (Inr (final_component f c))"
    and "final_component f c \<in> components f"
    and "\<exists>k<card (components f). first_fixed_point f c k (final_component f c)"
proof -
  have fin: "finite (components f)"
    by (simp add: components_def)
  have two: "cycles_have_length_two f (components f)"
    using assms(1) by (simp add: round_ready_def Let_def)
  obtain k r where kr: "k < card (components f)" "r \<in> components f" "first_fixed_point f c k r"
    using final_component_exists [OF fin round_ready_closed [OF assms(1)] two assms(2)] by blast
  then have c: "computeFinalComponent f c = Some (Inr r)"
    by (simp add: first_fixed_point_final)
  then have "final_component f c = r"
    by (simp add: final_component_def)
  with kr c show "computeFinalComponent f c = Some (Inr (final_component f c))"
    "final_component f c \<in> components f"
    "\<exists>k<card (components f). first_fixed_point f c k (final_component f c)"
    by auto
qed

lemma final_component_fixed:
  assumes "round_ready f" and "c \<in> components f"
  shows "break_cycle (successor f) (final_component f c) = final_component f c"
proof -
  obtain k where "first_fixed_point f c k (final_component f c)"
    using final_component_props(3) [OF assms] by blast
  then have "spec_next_component f (final_component f c) = Inr (final_component f c)"
    by (simp add: first_fixed_point_def)
  then show ?thesis
    using spec_next_component_break_cycle [OF round_ready_closed [OF assms(1)]
        final_component_props(2) [OF assms]]
    by simp
qed

lemma final_component_stay:
  assumes "round_ready f" and "c \<in> components f"
    and "break_cycle (successor f) c = c"
  shows "final_component f c = c"
proof -
  have "computeNextComponent f c = Inr c"
    using spec_next_component_break_cycle [OF round_ready_closed [OF assms(1)] assms(2)] assms(3)
    by (simp add: computeNextComponent_spec)
  then show ?thesis
    by (simp add: final_component_def computeFinalComponent_fixed)
qed

lemma final_component_step:
  assumes "round_ready f" and "c \<in> components f"
    and "break_cycle (successor f) c \<noteq> c"
  shows "final_component f (break_cycle (successor f) c) = final_component f c"
proof -
  have "computeNextComponent f c = Inr (break_cycle (successor f) c)"
    using spec_next_component_break_cycle [OF round_ready_closed [OF assms(1)] assms(2)]
    by (simp add: computeNextComponent_spec)
  then have "computeFinalComponent f c = computeFinalComponent f (break_cycle (successor f) c)"
    using assms(3) by (rule computeFinalComponent_step)
  then have "computeFinalComponent f (break_cycle (successor f) c)
             = Some (Inr (final_component f c))"
    using final_component_props(1) [OF assms(1,2)] by simp
  then show ?thesis
    by (simp add: final_component_def)
qed

text \<open>
  While the kernel runs, the label of a leaf is either the one it had when the kernel
  started or the final component of that one.
\<close>

definition relabelled :: "UpdateComponentsAndEdges \<Rightarrow> UpdateComponentsAndEdges \<Rightarrow> bool" where
  "relabelled f0 f =
     (out_edges f = out_edges f0 \<and> length (labels f) = length (labels f0)
      \<and> (\<forall>i. leaf f0 i \<longrightarrow> labels f ! nat i = labels f0 ! nat i
                \<or> labels f ! nat i = final_component f0 (labels f0 ! nat i)))"

lemma relabelled_spec_next:
  assumes rr: "round_ready f0" and rel: "relabelled f0 f" and c: "c \<in> components f0"
  shows "\<exists>d\<in>components f0. spec_next f c = Inr d
           \<and> (d = successor f0 c \<or> d = final_component f0 (successor f0 c))"
proof -
  let ?n = "int (length (out_edges f0))"
  let ?t = "target (out_edges f0 ! nat (c - ?n + 1))"
  have lc: "leaf f0 c"
    using round_ready_components [OF rr] c by simp
  have t: "leaf f0 ?t" and s0: "spec_next f0 c = Inr (labels f0 ! nat ?t)"
    using round_ready_spec_next [OF rr c] by simp_all
  have g: "successor f0 c = labels f0 ! nat ?t"
    using s0 by (simp add: successor_def)
  have gS: "successor f0 c \<in> components f0"
    using g leaf_label_component [OF rr t] by simp
  have len: "int (length (labels f)) = 2 * ?n - 1"
    using rr rel by (simp add: round_ready_def relabelled_def Let_def)
  have oe: "out_edges f = out_edges f0"
    using rel by (simp add: relabelled_def)
  have "view_at (labels f) ?t = Inr (labels f ! nat ?t)"
    using leaf_view_at [of "labels f" f0 ?t] len t by simp
  then have s: "spec_next f c = Inr (labels f ! nat ?t)"
    using leaf_slot [OF lc] oe by (simp add: spec_next_def)
  have "labels f ! nat ?t = successor f0 c
        \<or> labels f ! nat ?t = final_component f0 (successor f0 c)"
    using rel t g by (auto simp: relabelled_def)
  moreover have "final_component f0 (successor f0 c) \<in> components f0"
    using final_component_props(2) [OF rr gS] .
  ultimately show ?thesis
    using s gS by auto
qed

lemma relabelled_closed:
  assumes "round_ready f0" and "relabelled f0 f"
  shows "graph_closed f (components f0)"
  unfolding graph_closed_def
  using relabelled_spec_next [OF assms] by blast

lemma relabelled_next_component:
  assumes rr: "round_ready f0" and rel: "relabelled f0 f" and c: "c \<in> components f0"
  shows "\<exists>d. computeNextComponent f c = Inr d
           \<and> (d = break_cycle (successor f0) c \<or> d = final_component f0 c)"
proof -
  let ?S = "components f0"
  have closed0: "graph_closed f0 ?S"
    using round_ready_closed [OF rr] .
  have "break_cycle (successor f) c = break_cycle (successor f0) c
        \<or> break_cycle (successor f) c = final_component f0 c"
  proof (rule break_cycle_relabel [where S = ?S])
    show "\<forall>x\<in>?S. successor f0 x \<in> ?S"
      using successor_closed [OF closed0] by blast
    show "\<forall>x\<in>?S. final_component f0 x \<in> ?S"
      using final_component_props(2) [OF rr] by blast
    show "\<forall>x\<in>?S. break_cycle (successor f0) (final_component f0 x) = final_component f0 x"
      using final_component_fixed [OF rr] by blast
    show "\<forall>x\<in>?S. break_cycle (successor f0) x = x \<longrightarrow> final_component f0 x = x"
      using final_component_stay [OF rr] by blast
    show "\<forall>x\<in>?S. break_cycle (successor f0) x \<noteq> x \<longrightarrow>
            final_component f0 (break_cycle (successor f0) x) = final_component f0 x"
      using final_component_step [OF rr] by blast
    show "\<forall>x\<in>?S. successor f x = successor f0 x
            \<or> successor f x = final_component f0 (successor f0 x)"
    proof
      fix x assume "x \<in> ?S"
      then obtain d where "spec_next f x = Inr d"
          "d = successor f0 x \<or> d = final_component f0 (successor f0 x)"
        using relabelled_spec_next [OF rr rel] by blast
      then show "successor f x = successor f0 x
            \<or> successor f x = final_component f0 (successor f0 x)"
        by (auto simp: successor_def)
    qed
    show "c \<in> ?S" using c .
  qed
  moreover have "computeNextComponent f c = Inr (break_cycle (successor f) c)"
    using spec_next_component_break_cycle [OF relabelled_closed [OF rr rel] c]
    by (simp add: computeNextComponent_spec)
  ultimately show ?thesis
    by auto
qed

lemma relabelled_final_fixed:
  assumes rr: "round_ready f0" and rel: "relabelled f0 f" and c: "c \<in> components f0"
    and fx: "final_component f0 c = c"
  shows "computeFinalComponent f c = Some (Inr c)"
proof -
  have "break_cycle (successor f0) c = c"
    using final_component_fixed [OF rr c] fx by simp
  then have "computeNextComponent f c = Inr c"
    using relabelled_next_component [OF rr rel c] fx by auto
  then show ?thesis
    by (rule computeFinalComponent_fixed)
qed

lemma relabelled_final:
  assumes rr: "round_ready f0" and rel: "relabelled f0 f"
  shows "c \<in> components f0 \<Longrightarrow> first_fixed_point f0 c k r \<Longrightarrow>
         computeFinalComponent f c = Some (Inr r)"
proof (induction k arbitrary: c)
  case 0
  then have "r = c" "computeNextComponent f0 c = Inr c"
    by (simp_all add: first_fixed_point_0 computeNextComponent_spec)
  then have "final_component f0 c = c"
    by (simp add: final_component_def computeFinalComponent_fixed)
  then show ?case
    using relabelled_final_fixed [OF rr rel "0.prems"(1)] \<open>r = c\<close> by simp
next
  case (Suc k)
  let ?g = "successor f0"
  from Suc.prems(2) obtain d where d: "spec_next_component f0 c = Inr d" "d \<noteq> c"
      "first_fixed_point f0 d k r"
    by (auto simp: first_fixed_point_Suc)
  have bc: "break_cycle ?g c = d"
    using spec_next_component_break_cycle [OF round_ready_closed [OF rr] Suc.prems(1)] d(1)
    by simp
  have dS: "d \<in> components f0"
    using bc break_cycle_funpow_closed [OF round_ready_closed [OF rr] Suc.prems(1), of 1]
    by simp
  have Fc: "final_component f0 c = r"
    using first_fixed_point_final [OF Suc.prems(2)] by (simp add: final_component_def)
  have rS: "r \<in> components f0"
    using final_component_props(2) [OF rr Suc.prems(1)] Fc by simp
  have Fr: "final_component f0 r = r"
    using first_fixed_point_final [of f0 r 0 r] Suc.prems(2)
    by (simp add: first_fixed_point_def final_component_def)
  have rc: "r \<noteq> c"
    using final_component_fixed [OF rr Suc.prems(1)] Fc bc d(2) by auto
  obtain y where y: "computeNextComponent f c = Inr y" "y = d \<or> y = r"
    using relabelled_next_component [OF rr rel Suc.prems(1)] bc Fc by auto
  then have "y \<noteq> c"
    using d(2) rc by auto
  then have st: "computeFinalComponent f c = computeFinalComponent f y"
    using computeFinalComponent_step [OF y(1)] by simp
  from y(2) show ?case
  proof
    assume "y = d"
    then show ?thesis
      using st Suc.IH [OF dS d(3)] by simp
  next
    assume "y = r"
    then show ?thesis
      using st relabelled_final_fixed [OF rr rel rS Fr] by simp
  qed
qed

lemma relabelled_final_component:
  assumes "round_ready f0" and "relabelled f0 f" and "c \<in> components f0"
  shows "computeFinalComponent f c = Some (Inr (final_component f0 c))"
  using relabelled_final [OF assms(1,2,3)] final_component_props(3) [OF assms(1,3)]
  by blast


text \<open>
  The leaves that append an edge: the representatives of a component (the leaf is its own
  label) whose final component is another one.
\<close>

definition emits :: "UpdateComponentsAndEdges \<Rightarrow> int \<Rightarrow> bool" where
  "emits f i = (labels f ! nat i = i \<and> final_component f i \<noteq> i)"

definition emitted_edge :: "UpdateComponentsAndEdges \<Rightarrow> int \<Rightarrow> WeightedEdge" where
  "emitted_edge f i = out_edges f ! nat (i - int (length (out_edges f)) + 1)"

lemma update_operator_call_effect:
  assumes rr: "round_ready f0" and rel: "relabelled f0 f" and i: "leaf f0 i"
    and fresh: "labels f ! nat i = labels f0 ! nat i"
    and room: "emits f0 i \<longrightarrow> 0 \<le> num_edges f \<and> num_edges f < int (length (edges f))"
  shows "update_operator_call i f =
         Some (Inr (if emits f0 i
                    then f\<lparr>labels := (labels f)[nat i := final_component f0 (labels f0 ! nat i)],
                           num_edges := num_edges f + 1,
                           edges := (edges f)[nat (num_edges f) := emitted_edge f0 i]\<rparr>
                    else f\<lparr>labels := (labels f)[nat i := final_component f0 (labels f0 ! nat i)]\<rparr>))"
proof -
  let ?n = "int (length (out_edges f0))"
  let ?c = "labels f0 ! nat i"
  have len: "int (length (labels f)) = 2 * ?n - 1"
    using rr rel by (simp add: round_ready_def relabelled_def Let_def)
  have oe: "out_edges f = out_edges f0"
    using rel by (simp add: relabelled_def)
  have rd: "view_at (labels f) i = Inr ?c"
    using leaf_view_at [of "labels f" f0 i] len i fresh by simp
  have cS: "?c \<in> components f0"
    using leaf_label_component [OF rr i] .
  have fin: "computeFinalComponent f ?c = Some (Inr (final_component f0 ?c))"
    using relabelled_final_component [OF rr rel cS] .
  have wr: "view_set (labels f) i (final_component f0 ?c)
            = Inr ((labels f)[nat i := final_component f0 ?c])"
    using len i by (auto simp: view_set_def leaf_def)
  show ?thesis
  proof (cases "emits f0 i")
    case True
    then have e: "i = ?c" "i \<noteq> final_component f0 ?c"
      by (auto simp: emits_def)
    have slot: "view_at (out_edges f0) (i - ?n + 1) = Inr (emitted_edge f0 i)"
      using leaf_slot [OF i] by (simp add: emitted_edge_def)
    have "0 \<le> num_edges f" "num_edges f < int (length (edges f))"
      using room True by simp_all
    then show ?thesis
      using True rd fin wr e slot oe
      by (simp add: update_operator_call_def Let_def view_set_def)
  next
    case False
    then have "i \<noteq> ?c \<or> i = final_component f0 ?c"
      by (auto simp: emits_def)
    then show ?thesis
      using False rd fin wr
      by (auto simp: update_operator_call_def Let_def)
  qed
qed

lemma relabelled_update:
  assumes "relabelled f0 f" and "leaf f0 i"
  shows "relabelled f0 (f\<lparr>labels := (labels f)[nat i := final_component f0 (labels f0 ! nat i)]\<rparr>)"
  unfolding relabelled_def
proof (intro conjI allI impI)
  fix j assume j: "leaf f0 j"
  let ?f = "f\<lparr>labels := (labels f)[nat i := final_component f0 (labels f0 ! nat i)]\<rparr>"
  show "labels ?f ! nat j = labels f0 ! nat j
        \<or> labels ?f ! nat j = final_component f0 (labels f0 ! nat j)"
  proof (cases "nat j = nat i")
    case True
    then have ji: "j = i" using j assms(2) by (auto simp: leaf_def)
    show ?thesis
    proof (cases "nat i < length (labels f)")
      case True
      then show ?thesis using ji by simp
    next
      case False
      then have "(labels f)[nat i := final_component f0 (labels f0 ! nat i)] = labels f"
        by (simp add: list_update_beyond)
      then show ?thesis
        using assms ji by (auto simp: relabelled_def)
    qed
  next
    case False
    then show ?thesis
      using assms(1) j by (auto simp: relabelled_def)
  qed
qed (use assms in \<open>auto simp: relabelled_def\<close>)


lemma append_emitted:
  assumes "m < length es"
  shows "take (Suc m) (es[m := e]) @ xs @ drop (Suc m + k) (es[m := e])
         = take m es @ (e # xs) @ drop (m + Suc k) es"
proof -
  have "take (Suc m) (es[m := e]) = take m es @ [e]"
    using assms by (simp add: take_Suc_conv_app_nth)
  moreover have "drop (Suc m + k) (es[m := e]) = drop (m + Suc k) es"
    by simp
  ultimately show ?thesis
    by simp
qed

lemma update_pass:
  assumes rr: "round_ready f0"
  shows "relabelled f0 f \<Longrightarrow> distinct sched \<Longrightarrow>
         \<forall>i\<in>set sched. leaf f0 i \<and> labels f ! nat i = labels f0 ! nat i \<Longrightarrow>
         0 \<le> num_edges f \<Longrightarrow>
         num_edges f + int (length (filter (emits f0) sched)) \<le> int (length (edges f)) \<Longrightarrow>
         \<exists>f'. parallel_for_partial sched update_operator_call f = Some (Inr f')
            \<and> relabelled f0 f'
            \<and> (\<forall>j. leaf f0 j \<longrightarrow>
                   labels f' ! nat j = (if j \<in> set sched
                                         then final_component f0 (labels f0 ! nat j)
                                         else labels f ! nat j))
            \<and> num_edges f' = num_edges f + int (length (filter (emits f0) sched))
            \<and> edges f' = take (nat (num_edges f)) (edges f)
                 @ map (emitted_edge f0) (filter (emits f0) sched)
                 @ drop (nat (num_edges f) + length (filter (emits f0) sched)) (edges f)"
proof (induction sched arbitrary: f)
  case Nil
  then show ?case by simp
next
  case (Cons i sched)
  let ?F = "final_component f0 (labels f0 ! nat i)"
  let ?k = "length (filter (emits f0) sched)"
  have i: "leaf f0 i" "labels f ! nat i = labels f0 ! nat i"
    using Cons.prems(3) by simp_all
  have room: "emits f0 i \<longrightarrow> 0 \<le> num_edges f \<and> num_edges f < int (length (edges f))"
    using Cons.prems(4,5) by auto
  define f1 where "f1 = (if emits f0 i
                    then f\<lparr>labels := (labels f)[nat i := ?F],
                           num_edges := num_edges f + 1,
                           edges := (edges f)[nat (num_edges f) := emitted_edge f0 i]\<rparr>
                    else f\<lparr>labels := (labels f)[nat i := ?F]\<rparr>)"
  have call: "update_operator_call i f = Some (Inr f1)"
    unfolding f1_def
    using update_operator_call_effect [OF rr Cons.prems(1) i room] .
  have lab1: "labels f1 = (labels f)[nat i := ?F]"
    by (simp add: f1_def)
  have rel1: "relabelled f0 f1"
    using relabelled_update [OF Cons.prems(1) i(1)]
    by (auto simp: f1_def relabelled_def)
  have len: "nat i < length (labels f)"
    using rr Cons.prems(1) i(1)
    by (auto simp: round_ready_def relabelled_def leaf_def Let_def)
  have other: "labels f1 ! nat j = labels f ! nat j" if "leaf f0 j" "j \<noteq> i" for j
  proof -
    have "nat j \<noteq> nat i"
      using that i(1) by (auto simp: leaf_def)
    then show ?thesis
      by (simp add: lab1)
  qed
  have fresh1: "\<forall>j\<in>set sched. leaf f0 j \<and> labels f1 ! nat j = labels f0 ! nat j"
  proof
    fix j assume j: "j \<in> set sched"
    then have "j \<noteq> i" using Cons.prems(2) by auto
    then show "leaf f0 j \<and> labels f1 ! nat j = labels f0 ! nat j"
      using other [of j] Cons.prems(3) j by simp
  qed
  have n1: "0 \<le> num_edges f1"
    using Cons.prems(4) by (simp add: f1_def)
  have room1: "num_edges f1 + int ?k \<le> int (length (edges f1))"
    using Cons.prems(5) by (auto simp: f1_def)
  obtain f' where f': "parallel_for_partial sched update_operator_call f1 = Some (Inr f')"
      "relabelled f0 f'"
      "\<forall>j. leaf f0 j \<longrightarrow>
             labels f' ! nat j = (if j \<in> set sched
                                   then final_component f0 (labels f0 ! nat j)
                                   else labels f1 ! nat j)"
      "num_edges f' = num_edges f1 + int ?k"
      "edges f' = take (nat (num_edges f1)) (edges f1)
                 @ map (emitted_edge f0) (filter (emits f0) sched)
                 @ drop (nat (num_edges f1) + ?k) (edges f1)"
    using Cons.IH [OF rel1 _ fresh1 n1 room1] Cons.prems(2) by auto
  have run: "parallel_for_partial (i # sched) update_operator_call f = Some (Inr f')"
    using call f'(1) by simp
  have labs: "\<forall>j. leaf f0 j \<longrightarrow>
             labels f' ! nat j = (if j \<in> set (i # sched)
                                   then final_component f0 (labels f0 ! nat j)
                                   else labels f ! nat j)"
  proof (intro allI impI)
    fix j assume j: "leaf f0 j"
    show "labels f' ! nat j = (if j \<in> set (i # sched)
                                   then final_component f0 (labels f0 ! nat j)
                                   else labels f ! nat j)"
    proof (cases "j = i")
      case True
      then have "j \<notin> set sched" using Cons.prems(2) by simp
      then have "labels f' ! nat j = labels f1 ! nat j"
        using f'(3) j by simp
      then show ?thesis
        using True len by (simp add: lab1)
    next
      case False
      then show ?thesis
        using f'(3) j other [OF j False] by simp
    qed
  qed
  have cnt: "num_edges f' = num_edges f + int (length (filter (emits f0) (i # sched)))"
    using f'(4) by (simp add: f1_def)
  have eds: "edges f' = take (nat (num_edges f)) (edges f)
                 @ map (emitted_edge f0) (filter (emits f0) (i # sched))
                 @ drop (nat (num_edges f) + length (filter (emits f0) (i # sched))) (edges f)"
  proof (cases "emits f0 i")
    case False
    then show ?thesis
      using f'(5) by (simp add: f1_def)
  next
    case True
    let ?m = "nat (num_edges f)"
    have m: "?m < length (edges f)"
      using room True by linarith
    have e1: "edges f1 = (edges f)[?m := emitted_edge f0 i]"
      and m1: "nat (num_edges f1) = Suc ?m"
      using True Cons.prems(4) by (simp_all add: f1_def)
    show ?thesis
      using f'(5) True append_emitted [OF m, of "emitted_edge f0 i"
          "map (emitted_edge f0) (filter (emits f0) sched)" ?k]
      by (simp add: e1 m1)
  qed
  show ?case
    using run f'(2) labs cnt eds by blast
qed


lemma final_component_idem:
  assumes "round_ready f" and "c \<in> components f"
  shows "final_component f (final_component f c) = final_component f c"
  using final_component_stay [OF assms(1) final_component_props(2) [OF assms]
      final_component_fixed [OF assms]] .

lemma final_image:
  assumes "round_ready f"
  shows "final_component f ` components f = {c \<in> components f. final_component f c = c}"
proof (intro equalityI subsetI)
  fix r assume "r \<in> final_component f ` components f"
  then show "r \<in> {c \<in> components f. final_component f c = c}"
    using final_component_props(2) [OF assms] final_component_idem [OF assms] by auto
next
  fix r assume "r \<in> {c \<in> components f. final_component f c = c}"
  then show "r \<in> final_component f ` components f"
    by force
qed

lemma emitters_card:
  assumes rr: "round_ready f" and d: "distinct schedule" and s: "set schedule = {i. leaf f i}"
  shows "length (filter (emits f) schedule)
         = card {c \<in> components f. final_component f c \<noteq> c}"
proof -
  have "distinct (filter (emits f) schedule)"
    using d by simp
  then have "length (filter (emits f) schedule) = card (set (filter (emits f) schedule))"
    by (rule distinct_card [symmetric])
  also have "set (filter (emits f) schedule) = {c \<in> components f. final_component f c \<noteq> c}"
    using s round_ready_components [OF rr] by (auto simp: emits_def)
  finally show ?thesis .
qed

lemma components_split:
  assumes rr: "round_ready f"
  shows "card (components f)
         = card {c \<in> components f. final_component f c \<noteq> c}
           + card (final_component f ` components f)"
proof -
  let ?S = "components f"
  have fin: "finite ?S"
    by (simp add: components_def)
  have "?S = {c \<in> ?S. final_component f c \<noteq> c} \<union> {c \<in> ?S. final_component f c = c}"
    by auto
  moreover have "{c \<in> ?S. final_component f c \<noteq> c} \<inter> {c \<in> ?S. final_component f c = c} = {}"
    by auto
  ultimately have "card ?S = card {c \<in> ?S. final_component f c \<noteq> c}
                    + card {c \<in> ?S. final_component f c = c}"
    using fin card_Un_disjoint [of "{c \<in> ?S. final_component f c \<noteq> c}"
        "{c \<in> ?S. final_component f c = c}"]
    by simp
  then show ?thesis
    by (simp add: final_image [OF rr])
qed

lemma components_nonempty:
  assumes "round_ready f"
  shows "components f \<noteq> {}"
proof -
  have "leaf f (int (length (out_edges f)) - 1)"
    using assms by (auto simp: round_ready_def leaf_def Let_def)
  then show ?thesis
    using leaf_label_component [OF assms] by blast
qed

lemma mutual_choice_emits_once:
  assumes rr: "round_ready f" and c: "c \<in> components f" and d: "d \<in> components f"
    and ne: "c \<noteq> d" and cd: "spec_next f c = Inr d" and dc: "spec_next f d = Inr c"
  shows "\<not> (emits f c \<and> emits f d)"
proof -
  have g: "successor f c = d" "successor f d = c"
    using cd dc by (simp_all add: successor_def)
  show ?thesis
  proof (cases "c < d")
    case True
    then have "break_cycle (successor f) c = c"
      using g by (simp add: break_cycle_def min_def)
    then have "final_component f c = c"
      using final_component_stay [OF rr c] by simp
    then show ?thesis
      by (simp add: emits_def)
  next
    case False
    then have "break_cycle (successor f) d = d"
      using g ne by (simp add: break_cycle_def min_def)
    then have "final_component f d = d"
      using final_component_stay [OF rr d] by simp
    then show ?thesis
      by (simp add: emits_def)
  qed
qed

text \<open>
  The edge of a component starts at a leaf of the component, as the kernel that finds the
  edges leaves them. Then two components that both append hold edges between different
  pairs of leaves: with the same pair they would have chosen each other.
\<close>

lemma emitted_edges_differ:
  assumes rr: "round_ready f" and c: "c \<in> components f" and d: "d \<in> components f"
    and ne: "c \<noteq> d"
    and sc: "labels f ! nat (source (emitted_edge f c)) = c"
    and sd: "labels f ! nat (source (emitted_edge f d)) = d"
    and em: "emits f c" "emits f d"
  shows "{source (emitted_edge f c), target (emitted_edge f c)}
         \<noteq> {source (emitted_edge f d), target (emitted_edge f d)}"
proof
  assume eq: "{source (emitted_edge f c), target (emitted_edge f c)}
         = {source (emitted_edge f d), target (emitted_edge f d)}"
  have "source (emitted_edge f c) \<noteq> source (emitted_edge f d)"
    using sc sd ne by auto
  then have x: "source (emitted_edge f c) = target (emitted_edge f d)"
      "target (emitted_edge f c) = source (emitted_edge f d)"
    using eq by (auto simp: doubleton_eq_iff)
  have "spec_next f c = Inr d"
    using round_ready_spec_next(1) [OF rr c] x(2) sd by (simp add: emitted_edge_def)
  moreover have "spec_next f d = Inr c"
    using round_ready_spec_next(1) [OF rr d] x(1) sc by (simp add: emitted_edge_def)
  ultimately show False
    using mutual_choice_emits_once [OF rr c d ne] em by blast
qed

text \<open>
  C4. From a state in which a round starts the kernel, under every schedule that runs the
  work item of each leaf once, the kernel returns; every leaf is relabelled with the final
  component of its label; the edges appended to the buffer, in the order of the schedule,
  are the edges of exactly the leaves that are their own label and not their final
  component; their number is the number of components before the kernel minus the number
  after it; of two components that chose each other, which hold the same edge, at most
  one appends; and when the edge of every component starts at a leaf of that component,
  as after the kernel that finds the edges, no two components append an edge between the
  same two leaves.
\<close>

theorem update_pass_emits_once:
  assumes rr: "round_ready f" and dist: "distinct schedule"
    and sched: "set schedule = {i. leaf f i}"
  shows "\<exists>f'. parallel_for_partial schedule update_operator_call f = Some (Inr f')
           \<and> out_edges f' = out_edges f \<and> length (labels f') = length (labels f)
           \<and> (\<forall>i. leaf f i \<longrightarrow>
                  computeFinalComponent f (labels f ! nat i) = Some (Inr (labels f' ! nat i)))
           \<and> edges f' = take (nat (num_edges f)) (edges f)
                @ map (emitted_edge f) (filter (emits f) schedule)
                @ drop (nat (num_edges f) + length (filter (emits f) schedule)) (edges f)
           \<and> num_edges f' = num_edges f + int (length (filter (emits f) schedule))
           \<and> int (length (filter (emits f) schedule))
               = int (card (components f)) - int (card (components f'))
           \<and> (\<forall>c d. c \<in> components f \<and> d \<in> components f \<and> c \<noteq> d
                  \<and> spec_next f c = Inr d \<and> spec_next f d = Inr c
                  \<longrightarrow> \<not> (emits f c \<and> emits f d))
           \<and> ((\<forall>c\<in>components f. labels f ! nat (source (emitted_edge f c)) = c) \<longrightarrow>
                (\<forall>c d. c \<in> components f \<and> d \<in> components f \<and> c \<noteq> d
                   \<and> emits f c \<and> emits f d \<longrightarrow>
                   {source (emitted_edge f c), target (emitted_edge f c)}
                   \<noteq> {source (emitted_edge f d), target (emitted_edge f d)}))"
proof -
  let ?S = "components f"
  let ?n = "int (length (out_edges f))"
  let ?k = "length (filter (emits f) schedule)"
  have rel: "relabelled f f"
    by (simp add: relabelled_def)
  have fresh: "\<forall>i\<in>set schedule. leaf f i \<and> labels f ! nat i = labels f ! nat i"
    using sched by simp
  have n0: "0 \<le> num_edges f" and nS: "num_edges f + int (card ?S) \<le> ?n"
    and le: "int (length (edges f)) = ?n - 1"
    using rr by (simp_all add: round_ready_def Let_def)
  have k: "?k = card {c \<in> ?S. final_component f c \<noteq> c}"
    using emitters_card [OF rr dist sched] .
  have split: "card ?S = ?k + card (final_component f ` ?S)"
    using components_split [OF rr] k by simp
  have "final_component f ` ?S \<noteq> {}"
    using components_nonempty [OF rr] by simp
  then have "0 < card (final_component f ` ?S)"
    by (simp add: components_def card_gt_0_iff)
  then have room: "num_edges f + int ?k \<le> int (length (edges f))"
    using split nS le by linarith
  obtain f' where f': "parallel_for_partial schedule update_operator_call f = Some (Inr f')"
      "relabelled f f'"
      "\<forall>j. leaf f j \<longrightarrow>
             labels f' ! nat j = (if j \<in> set schedule
                                   then final_component f (labels f ! nat j)
                                   else labels f ! nat j)"
      "num_edges f' = num_edges f + int ?k"
      "edges f' = take (nat (num_edges f)) (edges f)
                 @ map (emitted_edge f) (filter (emits f) schedule)
                 @ drop (nat (num_edges f) + ?k) (edges f)"
    using update_pass [OF rr rel dist fresh n0 room] by blast
  have oe: "out_edges f' = out_edges f" and ll: "length (labels f') = length (labels f)"
    using f'(2) by (simp_all add: relabelled_def)
  have lab: "labels f' ! nat i = final_component f (labels f ! nat i)" if "leaf f i" for i
    using f'(3) that sched by simp
  have fin: "\<forall>i. leaf f i \<longrightarrow>
                  computeFinalComponent f (labels f ! nat i) = Some (Inr (labels f' ! nat i))"
    using lab final_component_props(1) [OF rr leaf_label_component [OF rr]] by simp
  have lf: "leaf f' = leaf f"
    using oe by (simp add: leaf_def fun_eq_iff)
  have "components f' = {labels f' ! nat i | i. leaf f' i}"
    using components_leaf_labels [of f'] oe ll rr by (simp add: round_ready_def Let_def)
  also have "\<dots> = {final_component f (labels f ! nat i) | i. leaf f i}"
    using lab lf by (metis (no_types, lifting))
  also have "\<dots> = final_component f ` {labels f ! nat i | i. leaf f i}"
    by auto
  also have "{labels f ! nat i | i. leaf f i} = ?S"
    using components_leaf_labels [of f] rr by (simp add: round_ready_def Let_def)
  finally have "components f' = final_component f ` ?S" .
  then have cnt: "int ?k = int (card ?S) - int (card (components f'))"
    using split by simp
  have mutual: "\<forall>c d. c \<in> ?S \<and> d \<in> ?S \<and> c \<noteq> d
                  \<and> spec_next f c = Inr d \<and> spec_next f d = Inr c
                  \<longrightarrow> \<not> (emits f c \<and> emits f d)"
    using mutual_choice_emits_once [OF rr] by blast
  have differ: "(\<forall>c\<in>?S. labels f ! nat (source (emitted_edge f c)) = c) \<longrightarrow>
                (\<forall>c d. c \<in> ?S \<and> d \<in> ?S \<and> c \<noteq> d \<and> emits f c \<and> emits f d \<longrightarrow>
                   {source (emitted_edge f c), target (emitted_edge f c)}
                   \<noteq> {source (emitted_edge f d), target (emitted_edge f d)})"
    using emitted_edges_differ [OF rr] by blast
  show ?thesis
    using f'(1,4,5) oe ll fin cnt mutual differ by blast
qed


text \<open>An example round: three components, the first two choosing each other.\<close>

definition example_round :: UpdateComponentsAndEdges where
  "example_round =
     \<lparr>labels = [2, 2, 2, 3, 4],
      out_edges = [\<lparr>source = 2, target = 3, weight = Finite 1\<rparr>,
                   \<lparr>source = 3, target = 2, weight = Finite 1\<rparr>,
                   \<lparr>source = 4, target = 3, weight = Finite 2\<rparr>],
      edges = [\<lparr>source = -1, target = -1, weight = infinity\<rparr>,
               \<lparr>source = -1, target = -1, weight = infinity\<rparr>],
      num_edges = 0\<rparr>"

lemma example_round_components: "components example_round = {2, 3, 4}"
  by (auto simp: components_def example_round_def)

lemma example_round_next:
  "spec_next example_round 2 = Inr 3" "spec_next example_round 3 = Inr 2"
  "spec_next example_round 4 = Inr 3"
  by (simp_all add: spec_next_def view_at_def example_round_def)

lemma example_round_closed: "graph_closed example_round {2, 3, 4}"
  by (simp add: graph_closed_def example_round_next)

lemma example_round_cycles: "cycles_have_length_two example_round {2, 3, 4}"
  unfolding cycles_have_length_two_def
proof (intro ballI allI impI)
  fix c :: int and k :: nat
  assume c: "c \<in> {2, 3, 4}" and k: "0 < k" and cyc: "spec_follow example_round k c = Inr c"
  have in_cycle: "spec_follow example_round j 2 \<in> {Inr 2, Inr 3}
      \<and> spec_follow example_round j 3 \<in> {Inr 2, Inr 3}" for j
    by (induction j) (auto simp: example_round_next)
  show "spec_follow example_round 2 c = Inr c"
  proof (cases "c = 4")
    case True
    obtain j where "k = Suc j" using k by (cases k) auto
    with cyc True have "spec_follow example_round j 3 = Inr 4"
      by (simp add: example_round_next)
    with in_cycle [of j] show ?thesis by simp
  next
    case False
    with c show ?thesis
      by (auto simp: numeral_2_eq_2 example_round_next)
  qed
qed

lemma example_round_leaf: "leaf example_round i \<longleftrightarrow> i = 2 \<or> i = 3 \<or> i = 4"
  by (auto simp: leaf_def example_round_def)

lemma example_round_ready: "round_ready example_round"
proof -
  have "card (components example_round) = 3"
    by (simp add: example_round_components)
  moreover have "\<forall>i. leaf example_round i \<longrightarrow> leaf example_round (labels example_round ! nat i)
      \<and> labels example_round ! nat (labels example_round ! nat i) = labels example_round ! nat i"
    unfolding example_round_leaf by (auto simp: example_round_def)
  moreover have "\<forall>c. leaf example_round c \<and> labels example_round ! nat c = c \<longrightarrow>
      leaf example_round (target (out_edges example_round !
         nat (c - int (length (out_edges example_round)) + 1)))"
    unfolding example_round_leaf by (auto simp: example_round_def)
  ultimately show ?thesis
    using example_round_cycles
    by (simp add: round_ready_def Let_def example_round_components)
       (simp add: example_round_def)
qed

theorem update_pass_emits_once_witness:
  "round_ready example_round \<and> distinct [4, 2, 3 :: int]
   \<and> set [4, 2, 3] = {i. leaf example_round i}
   \<and> parallel_for_partial [4, 2, 3] update_operator_call example_round
     = Some (Inr (example_round
          \<lparr>labels := [2, 2, 2, 2, 2],
           edges := [\<lparr>source = 4, target = 3, weight = Finite 2\<rparr>,
                     \<lparr>source = 3, target = 2, weight = Finite 1\<rparr>],
           num_edges := 2\<rparr>))
   \<and> filter (emits example_round) [4, 2, 3] = [4, 3]
   \<and> labels example_round ! nat (source (emitted_edge example_round 2)) = 2
   \<and> labels example_round ! nat (source (emitted_edge example_round 3)) = 3
   \<and> labels example_round ! nat (source (emitted_edge example_round 4)) = 4
   \<and> {source (emitted_edge example_round 4), target (emitted_edge example_round 4)}
       \<noteq> {source (emitted_edge example_round 3), target (emitted_edge example_round 3)}"
proof -
  have d: "distinct [4, 2, 3 :: int]"
    by simp
  have s: "set [4, 2, 3] = {i. leaf example_round i}"
    by (auto simp: example_round_leaf)
  have f2: "computeFinalComponent example_round 2 = Some (Inr 2)"
    and f3: "computeFinalComponent example_round 3 = Some (Inr 2)"
    and f4: "computeFinalComponent example_round 4 = Some (Inr 2)"
    by (simp_all add: computeFinalComponent.simps computeNextComponent_def view_at_def
        example_round_def)
  have "emits example_round 4" "\<not> emits example_round 2" "emits example_round 3"
    unfolding emits_def final_component_def f2 f3 f4
    by (simp_all add: example_round_def)
  then have em: "filter (emits example_round) [4, 2, 3] = [4, 3]"
    by simp
  obtain f' where f': "parallel_for_partial [4, 2, 3] update_operator_call example_round
        = Some (Inr f')"
      "out_edges f' = out_edges example_round"
      "\<forall>i. leaf example_round i \<longrightarrow>
          computeFinalComponent example_round (labels example_round ! nat i)
          = Some (Inr (labels f' ! nat i))"
      "length (labels f') = length (labels example_round)"
      "edges f' = take (nat (num_edges example_round)) (edges example_round)
          @ map (emitted_edge example_round) (filter (emits example_round) [4, 2, 3])
          @ drop (nat (num_edges example_round)
                  + length (filter (emits example_round) [4, 2, 3])) (edges example_round)"
      "num_edges f' = num_edges example_round
          + int (length (filter (emits example_round) [4, 2, 3]))"
      "(\<forall>c\<in>components example_round.
           labels example_round ! nat (source (emitted_edge example_round c)) = c) \<longrightarrow>
       (\<forall>c d. c \<in> components example_round \<and> d \<in> components example_round \<and> c \<noteq> d
           \<and> emits example_round c \<and> emits example_round d \<longrightarrow>
           {source (emitted_edge example_round c), target (emitted_edge example_round c)}
           \<noteq> {source (emitted_edge example_round d), target (emitted_edge example_round d)})"
    using update_pass_emits_once [OF example_round_ready d s] by blast
  have src: "labels example_round ! nat (source (emitted_edge example_round 2)) = 2"
      "labels example_round ! nat (source (emitted_edge example_round 3)) = 3"
      "labels example_round ! nat (source (emitted_edge example_round 4)) = 4"
    by (simp_all add: emitted_edge_def example_round_def)
  then have "\<forall>c\<in>components example_round.
           labels example_round ! nat (source (emitted_edge example_round c)) = c"
    by (simp add: example_round_components)
  then have df: "{source (emitted_edge example_round 4), target (emitted_edge example_round 4)}
       \<noteq> {source (emitted_edge example_round 3), target (emitted_edge example_round 3)}"
    using f'(7) \<open>emits example_round 4\<close> \<open>emits example_round 3\<close>
    by (simp add: example_round_components)
  have e: "edges f' = [\<lparr>source = 4, target = 3, weight = Finite 2\<rparr>,
                       \<lparr>source = 3, target = 2, weight = Finite 1\<rparr>]"
    using f'(5) unfolding em by (simp add: emitted_edge_def example_round_def)
  have n: "num_edges f' = 2"
    using f'(6) unfolding em by (simp add: example_round_def)
  have run: "parallel_for_partial [4, 2, 3] update_operator_call example_round
     = Some (Inr (example_round
          \<lparr>labels := [2, 2, 2, 2, 2],
           edges := [\<lparr>source = 4, target = 3, weight = Finite 2\<rparr>,
                     \<lparr>source = 3, target = 2, weight = Finite 1\<rparr>],
           num_edges := 2\<rparr>))"
    by (simp add: update_operator_call_def computeFinalComponent.simps computeNextComponent_def
        view_at_def view_set_def example_round_def Let_def)
  with f'(1) e n example_round_ready d s em src df show ?thesis
    by simp
qed

section \<open>The minimum spanning tree\<close>

text \<open>
  \<^verbatim>\<open>FindComponentNearestNeighbors::operator()\<close>: the traversal from the root for the
  leaf \<open>i\<close>, then the conditional minimum of the best edge into the edge of the component.
\<close>

definition find_operator_call ::
  "int \<Rightarrow> FindComponentNearestNeighbors \<Rightarrow> (error + FindComponentNearestNeighbors) option" where
  "find_operator_call i F =
     (let bvh = find_bvh F in
      case view_at (find_labels F) i of
        Inl e \<Rightarrow> Some (Inl e)
      | Inr component \<Rightarrow>
          let leaf_permutation_i = getLeafPermutationIndex bvh i;
              best = \<lparr>source = i, target = undetermined, weight = infinity\<rparr>;
              n = int (bvh_size bvh);
              slot = component - n + 1
          in
          if \<not> (0 \<le> slot \<and> slot < int (length (find_radii F))) then Some (Inl OutOfBounds)
          else
            (case traversal_loop F i component leaf_permutation_i (nat slot)
                    (traversal_start bvh best (find_radii F)) of
               None \<Rightarrow> None
             | Some (Inl e) \<Rightarrow> Some (Inl e)
             | Some (Inr s) \<Rightarrow>
                 (case view_at (find_edges F) slot of
                    Inl e \<Rightarrow> Some (Inl e)
                  | Inr component_edge \<Rightarrow>
                      if float_less (weight (current_best s)) infinity
                         \<and> float_le (weight (current_best s)) (weight component_edge)
                      then Some (Inr (F\<lparr>find_radii := radii s,
                                         find_edges := (find_edges F)
                                           [nat slot := atomic_min_edge component_edge
                                                          (current_best s)]\<rparr>))
                      else Some (Inr (F\<lparr>find_radii := radii s\<rparr>)))))"

text \<open>The constructor of the functor: three assertions and the kernel over the leaves.\<close>

definition findComponentNearestNeighbors ::
  "int list \<Rightarrow> BVH \<Rightarrow> int list \<Rightarrow> WeightedEdge list \<Rightarrow> Metric \<Rightarrow> float32 list \<Rightarrow>
   (error + FindComponentNearestNeighbors) option" where
  "findComponentNearestNeighbors schedule bvh labels0 edges0 metric radii0 =
     (let n = int (bvh_size bvh) in
      if int (length labels0) \<noteq> size_t (2 * n - 1) then Some (Inl AssertionFailed)
      else if int (length edges0) \<noteq> n then Some (Inl AssertionFailed)
      else if int (length radii0) \<noteq> n then Some (Inl AssertionFailed)
      else parallel_for_partial schedule find_operator_call
             \<lparr>find_bvh = bvh, find_labels = labels0, find_edges = edges0,
              find_metric = metric, find_radii = radii0\<rparr>)"







definition uninitialized_edge :: WeightedEdge where
  "uninitialized_edge = \<lparr>source = -1, target = -1, weight = infinity\<rparr>"







text \<open>A property that every work item keeps holds after the kernel.\<close>

lemma parallel_for_partial_invariant:
  assumes "parallel_for_partial sched body s = Some (Inr s')" and "P s"
    and "\<And>i t t'. i \<in> set sched \<Longrightarrow> P t \<Longrightarrow> body i t = Some (Inr t') \<Longrightarrow> P t'"
  shows "P s'"
  using assms
proof (induction sched arbitrary: s)
  case Nil
  then show ?case by simp
next
  case (Cons i sched)
  from Cons.prems(1) obtain t where t: "body i s = Some (Inr t)"
      "parallel_for_partial sched body t = Some (Inr s')"
    by (auto split: option.splits sum.splits)
  have Pt: "P t"
    using Cons.prems(3) [of i s t] Cons.prems(2) t(1) by simp
  show ?case
  proof (rule Cons.IH [OF t(2) Pt])
    fix j u u' assume "j \<in> set sched" "P u" "body j u = Some (Inr u')"
    then show "P u'"
      using Cons.prems(3) [of j u u'] by simp
  qed
qed

lemma parallel_for_invariant:
  assumes "parallel_for sched body s = Inr s'" and "P s"
    and "\<And>i t t'. i \<in> set sched \<Longrightarrow> P t \<Longrightarrow> body i t = Inr t' \<Longrightarrow> P t'"
  shows "P s'"
  using assms
proof (induction sched arbitrary: s)
  case Nil
  then show ?case by simp
next
  case (Cons i sched)
  from Cons.prems(1) obtain t where t: "body i s = Inr t"
      "parallel_for sched body t = Inr s'"
    by (auto split: sum.splits)
  have Pt: "P t"
    using Cons.prems(3) [of i s t] Cons.prems(2) t(1) by simp
  show ?case
  proof (rule Cons.IH [OF t(2) Pt])
    fix j u u' assume "j \<in> set sched" "P u" "body j u = Inr u'"
    then show "P u'"
      using Cons.prems(3) [of j u u'] by simp
  qed
qed

text \<open>
  An edge of the find kernel is unset (its target is \<open>-1\<close>) or a candidate: from a leaf
  of the range to a leaf of the hierarchy.
\<close>

definition edge_ok :: "BVH \<Rightarrow> int set \<Rightarrow> WeightedEdge \<Rightarrow> bool" where
  "edge_ok bvh I e = (target e = - 1 \<or> (source e \<in> I \<and> isLeaf bvh (target e)))"

lemma visit_child_edge_ok:
  assumes "visit_child F i component lp slot child dc best rad = Inr (best', rad', flag)"
    and "edge_ok (find_bvh F) {i} best"
  shows "edge_ok (find_bvh F) {i} best'"
  using assms
  by (auto simp: visit_child_def Let_def edge_ok_def split: sum.splits if_splits)

lemma traversal_step_edge_ok:
  assumes step: "traversal_step F i component lp slot s = Inr s'"
    and ok: "edge_ok (find_bvh F) {i} (current_best s)"
  shows "edge_ok (find_bvh F) {i} (current_best s')"
proof (cases "float_le (distance_node s) (radii s ! slot)")
  case False
  then show ?thesis
    using traversal_step_pruned [OF step] ok by simp
next
  case True
  obtain best_l rad_l t_left t_right where
    l: "visit_child F i component lp slot (getLeftChild (find_bvh F) (node s))
             (distance (find_bvh F) i (getLeftChild (find_bvh F) (node s)))
             (current_best s) (radii s) = Inr (best_l, rad_l, t_left)"
    and r: "visit_child F i component lp slot (getRightChild (find_bvh F) (node s))
             (distance (find_bvh F) i (getRightChild (find_bvh F) (node s)))
             best_l rad_l = Inr (current_best s', radii s', t_right)"
    using traversal_step_expanded [OF step True] by blast
  show ?thesis
    using visit_child_edge_ok [OF r visit_child_edge_ok [OF l ok]] .
qed

lemma traversal_loop_edge_ok:
  assumes "traversal_loop F i component lp slot s = Some r"
  shows "edge_ok (find_bvh F) {i} (current_best s) \<longrightarrow>
         (\<forall>s'. r = Inr s' \<longrightarrow> edge_ok (find_bvh F) {i} (current_best s'))"
proof (rule traversal_loop.raw_induct
    [where P = "\<lambda>F i component lp slot s r.
         edge_ok (find_bvh F) {i} (current_best s) \<longrightarrow>
         (\<forall>s'. r = Inr s' \<longrightarrow> edge_ok (find_bvh F) {i} (current_best s'))", OF _ assms])
  fix self F i component lp slot s r
  assume IH: "\<And>F i component lp slot s r. self F i component lp slot s = Some r \<Longrightarrow>
           edge_ok (find_bvh F) {i} (current_best s) \<longrightarrow>
           (\<forall>s'. r = Inr s' \<longrightarrow> edge_ok (find_bvh F) {i} (current_best s'))"
    and body: "(case traversal_step F i component lp slot s of
                  Inl e \<Rightarrow> Some (Inl e)
                | Inr s' \<Rightarrow> if node s' \<noteq> SENTINEL then self F i component lp slot s'
                            else Some (Inr s')) = Some r"
  show "edge_ok (find_bvh F) {i} (current_best s) \<longrightarrow>
         (\<forall>s'. r = Inr s' \<longrightarrow> edge_ok (find_bvh F) {i} (current_best s'))"
  proof (intro impI allI)
    fix s' assume ok: "edge_ok (find_bvh F) {i} (current_best s)" and r: "r = Inr s'"
    show "edge_ok (find_bvh F) {i} (current_best s')"
    proof (cases "traversal_step F i component lp slot s")
      case (Inl e)
      with body r show ?thesis by simp
    next
      case (Inr t)
      have okt: "edge_ok (find_bvh F) {i} (current_best t)"
        using traversal_step_edge_ok [OF Inr ok] .
      show ?thesis
      proof (cases "node t \<noteq> SENTINEL")
        case True
        then have "self F i component lp slot t = Some r"
          using body Inr by simp
        then show ?thesis
          using IH okt r by blast
      next
        case False
        then have "r = Inr t" using body Inr by simp
        with r okt show ?thesis by simp
      qed
    qed
  qed
qed





text \<open>
  The kernel leaves in the slot of a component an edge that is unset or starts at a leaf
  with the label of that component.
\<close>

definition edge_from :: "int list \<Rightarrow> int \<Rightarrow> WeightedEdge \<Rightarrow> bool" where
  "edge_from lab c e = (target e = - 1 \<or> lab ! nat (source e) = c)"

lemma find_operator_call_sources:
  assumes call: "find_operator_call i F = Some (Inr F')"
    and ok: "\<forall>k<length (find_edges F).
               edge_from (find_labels F) (int k + int (bvh_size (find_bvh F)) - 1) (find_edges F ! k)"
  shows "(\<forall>k<length (find_edges F').
            edge_from (find_labels F') (int k + int (bvh_size (find_bvh F')) - 1) (find_edges F' ! k))
         \<and> length (find_edges F') = length (find_edges F) \<and> find_bvh F' = find_bvh F
         \<and> find_labels F' = find_labels F"
proof -
  let ?bvh = "find_bvh F"
  let ?n = "int (bvh_size ?bvh)"
  from call obtain component where c: "view_at (find_labels F) i = Inr component"
    by (auto simp: find_operator_call_def Let_def split: sum.splits)
  let ?slot = "component - ?n + 1"
  let ?s0 = "traversal_start ?bvh \<lparr>source = i, target = undetermined, weight = infinity\<rparr>
               (find_radii F)"
  from call c obtain s component_edge where
    loop: "traversal_loop F i component (getLeafPermutationIndex ?bvh i) (nat ?slot) ?s0
           = Some (Inr s)"
    and ce: "view_at (find_edges F) ?slot = Inr component_edge"
    and F': "F' = F\<lparr>find_radii := radii s,
                      find_edges := (find_edges F)
                         [nat ?slot := atomic_min_edge component_edge (current_best s)]\<rparr>
             \<or> F' = F\<lparr>find_radii := radii s\<rparr>"
    by (auto simp: find_operator_call_def Let_def split: sum.splits option.splits if_splits)
  have li: "find_labels F ! nat i = component"
    using c by (auto simp: view_at_def split: if_splits)
  have sl: "0 \<le> ?slot" "nat ?slot < length (find_edges F)"
      "component_edge = find_edges F ! nat ?slot"
    using ce by (auto simp: view_at_def split: if_splits)
  have "edge_ok ?bvh {i} (current_best ?s0)"
    by (simp add: edge_ok_def traversal_start_def undetermined_def)
  then have "edge_ok ?bvh {i} (current_best s)"
    using traversal_loop_edge_ok [OF loop] by blast
  then have cb: "edge_from (find_labels F) component (current_best s)"
    using li by (auto simp: edge_ok_def edge_from_def)
  have "edge_from (find_labels F) (int (nat ?slot) + ?n - 1) component_edge"
    using ok sl(2,3) by blast
  then have "edge_from (find_labels F) component component_edge"
    using sl(1) by simp
  then have new: "edge_from (find_labels F) component
                    (atomic_min_edge component_edge (current_best s))"
    using cb by (simp add: atomic_min_edge_def)
  from F' show ?thesis
  proof
    assume "F' = F\<lparr>find_radii := radii s\<rparr>"
    then show ?thesis using ok by simp
  next
    assume a: "F' = F\<lparr>find_radii := radii s,
                      find_edges := (find_edges F)
                         [nat ?slot := atomic_min_edge component_edge (current_best s)]\<rparr>"
    have "\<forall>k<length (find_edges F).
            edge_from (find_labels F) (int k + ?n - 1)
              ((find_edges F)[nat ?slot := atomic_min_edge component_edge (current_best s)] ! k)"
    proof (intro allI impI)
      fix k assume k: "k < length (find_edges F)"
      show "edge_from (find_labels F) (int k + ?n - 1)
              ((find_edges F)[nat ?slot := atomic_min_edge component_edge (current_best s)] ! k)"
      proof (cases "k = nat ?slot")
        case True
        then have "int k + ?n - 1 = component" using sl(1) by simp
        then show ?thesis using new True k by simp
      next
        case False
        then show ?thesis using ok k by simp
      qed
    qed
    with a show ?thesis by simp
  qed
qed

lemma findComponentNearestNeighbors_sources:
  assumes run: "findComponentNearestNeighbors schedule bvh labels0
                  (replicate n uninitialized_edge) metric radii0 = Some (Inr F)"
  shows "\<forall>k<n. edge_from labels0 (int k + int (bvh_size bvh) - 1) (find_edges F ! k)"
proof -
  let ?F0 = "\<lparr>find_bvh = bvh, find_labels = labels0,
              find_edges = replicate n uninitialized_edge,
              find_metric = metric, find_radii = radii0\<rparr>"
  let ?P = "\<lambda>F. (\<forall>k<length (find_edges F).
                    edge_from (find_labels F) (int k + int (bvh_size (find_bvh F)) - 1)
                      (find_edges F ! k))
              \<and> length (find_edges F) = n \<and> find_bvh F = bvh \<and> find_labels F = labels0"
  from run have pf: "parallel_for_partial schedule find_operator_call ?F0 = Some (Inr F)"
    by (auto simp: findComponentNearestNeighbors_def Let_def split: if_splits)
  have "?P F"
  proof (rule parallel_for_partial_invariant [OF pf, where P = ?P])
    show "?P ?F0"
      by (simp add: edge_from_def uninitialized_edge_def)
  next
    fix i t t'
    assume "i \<in> set schedule" "?P t" "find_operator_call i t = Some (Inr t')"
    then show "?P t'"
      using find_operator_call_sources [of i t t'] by auto
  qed
  then show ?thesis by auto
qed



































section \<open>DBSCAN: the entry point\<close>

text \<open>
  An \<^verbatim>\<open>int\<close> has 32 bits. The atomic addition wraps around. An addition in an
  expression whose result is not an \<^verbatim>\<open>int\<close> has no defined behaviour, and the model
  stops there with \<open>IntegerOverflow\<close>.
\<close>

definition int32 :: "int \<Rightarrow> int" where
  "int32 x = (x + 2 ^ 31) mod 2 ^ 32 - 2 ^ 31"



























lemma int32_id: "0 \<le> x \<Longrightarrow> x < 2 ^ 31 \<Longrightarrow> int32 x = x"
  by (simp add: int32_def)



















































end
